theory Spec2Isabelle
  imports Main "HOL-Library.Char_ord" "HOL-Library.List_Lexorder" "HOL-Library.Sublist"
begin

section \<open>Python values and dictionaries\<close>

text \<open>
  The two scripts \<^verbatim>\<open>scripts/json_to_excel.py\<close> and \<^verbatim>\<open>scripts/excel_to_json.py\<close> work on
  Python dictionaries. A Python \<^verbatim>\<open>dict\<close> keeps its keys unique and in insertion order, so it
  is modelled as an association list: assigning to a key that is present replaces the value
  in place, assigning to a new key appends the pair at the end.

  The scalar values that can sit at a leaf of a parsed JSON document or in a spreadsheet cell
  are \<^verbatim>\<open>None\<close>, booleans, integers, strings and the float \<^verbatim>\<open>nan\<close> (a blank cell). Other
  floats and JSON arrays are outside the model.
\<close>

datatype error = TypeError | AttributeError | FileNotFoundError | ValueError | OSError

datatype scalar = SNone | SBool bool | SInt int | SStr string | SNaN

datatype json = JLeaf scalar | JObj "(string \<times> json) list"

type_synonym document = "(string \<times> json) list"

type_synonym flat_dict = "(string \<times> string) list"

abbreviation dquote :: char where
  "dquote \<equiv> CHR 0x22"

abbreviation dot :: char where
  "dot \<equiv> CHR ''.''"

definition dict_get :: "('k \<times> 'v) list \<Rightarrow> 'k \<Rightarrow> 'v option" where
  "dict_get d k = map_of d k"

fun dict_set :: "('k \<times> 'v) list \<Rightarrow> 'k \<Rightarrow> 'v \<Rightarrow> ('k \<times> 'v) list" where
  "dict_set [] k v = [(k, v)]"
| "dict_set ((k', v') # d) k v =
     (if k' = k then (k, v) # d else (k', v') # dict_set d k v)"

text \<open>\<^verbatim>\<open>dict(items)\<close>: the pairs are assigned one after the other, a later pair wins.\<close>

definition dict_of :: "('k \<times> 'v) list \<Rightarrow> ('k \<times> 'v) list" where
  "dict_of items = foldl (\<lambda>d (k, v). dict_set d k v) [] items"

subsection \<open>\<^verbatim>\<open>str(v)\<close> and \<^verbatim>\<open>str.strip('"')\<close>\<close>

definition digit_char :: "nat \<Rightarrow> char" where
  "digit_char n = char_of (48 + n)"

function str_nat :: "nat \<Rightarrow> string" where
  "str_nat n = (if n < 10 then [digit_char n] else str_nat (n div 10) @ [digit_char (n mod 10)])"
  by pat_completeness auto
termination
  by (relation "measure id") auto

definition str_int :: "int \<Rightarrow> string" where
  "str_int i = (if i < 0 then CHR ''-'' # str_nat (nat (- i)) else str_nat (nat i))"

fun py_str :: "scalar \<Rightarrow> string" where
  "py_str SNone = ''None''"
| "py_str (SBool b) = (if b then ''True'' else ''False'')"
| "py_str (SInt i) = str_int i"
| "py_str (SStr s) = s"
| "py_str SNaN = ''nan''"

text \<open>
  \<^verbatim>\<open>s.strip('"')\<close> removes every leading and every trailing character that belongs to the
  argument's character set, here the double quote.
\<close>

definition strip_quotes :: "string \<Rightarrow> string" where
  "strip_quotes s = rev (dropWhile (\<lambda>c. c = dquote) (rev (dropWhile (\<lambda>c. c = dquote) s)))"

section \<open>\<^verbatim>\<open>flatten_dict\<close> (json_to_excel.py)\<close>

text \<open>\<^verbatim>\<open>new_key = f"{parent_key}{sep}{k}" if parent_key else k\<close>, with the default separator.\<close>

definition new_key :: "string \<Rightarrow> string \<Rightarrow> string" where
  "new_key parent_key k = (if parent_key \<noteq> [] then parent_key @ [dot] @ k else k)"

text \<open>
  \<open>flatten_items\<close> is the loop that fills the list \<^verbatim>\<open>items\<close>; the recursive call
  contributes the items of the dictionary it returns. \<open>flatten_dict\<close> is the final
  \<^verbatim>\<open>dict(items)\<close>.
\<close>

fun flatten_items :: "document \<Rightarrow> string \<Rightarrow> flat_dict" where
  "flatten_items [] parent_key = []"
| "flatten_items ((k, JObj v) # d) parent_key =
     dict_of (flatten_items v (new_key parent_key k)) @ flatten_items d parent_key"
| "flatten_items ((k, JLeaf v) # d) parent_key =
     (new_key parent_key k, strip_quotes (py_str v)) # flatten_items d parent_key"

definition flatten_dict :: "document \<Rightarrow> string \<Rightarrow> flat_dict" where
  "flatten_dict d parent_key = dict_of (flatten_items d parent_key)"

section \<open>\<^verbatim>\<open>unflatten_dict\<close> (excel_to_json.py)\<close>

text \<open>\<^verbatim>\<open>key.split('.')\<close>: the result always has at least one segment.\<close>

fun split_key :: "string \<Rightarrow> string list" where
  "split_key [] = [[]]"
| "split_key (c # cs) =
     (if c = dot then [] # split_key cs
      else (case split_key cs of [] \<Rightarrow> [[c]] | p # ps \<Rightarrow> (c # p) # ps))"

text \<open>
  The inner loop walks \<^verbatim>\<open>current\<close> through \<^verbatim>\<open>parts[:-1]\<close>, creating an empty dictionary
  for a part that is missing, and then assigns \<^verbatim>\<open>current[parts[-1]] = value\<close>. The
  dictionaries are shared, so the assignment is seen from \<^verbatim>\<open>nested_dict\<close>; the model
  rebuilds the path on the way back. When \<^verbatim>\<open>current[part]\<close> is a string, the next
  operation on \<^verbatim>\<open>current\<close> (an index by a string or an item assignment) raises
  \<^verbatim>\<open>TypeError\<close>.
\<close>

fun walk_assign :: "document \<Rightarrow> string list \<Rightarrow> string \<Rightarrow> string \<Rightarrow> error + document" where
  "walk_assign current [] lst v = Inr (dict_set current lst (JLeaf (SStr v)))"
| "walk_assign current (part # parts) lst v =
     (case (case dict_get current part of None \<Rightarrow> JObj [] | Some c \<Rightarrow> c) of
        JObj child \<Rightarrow>
          (case walk_assign child parts lst v of
             Inl e \<Rightarrow> Inl e
           | Inr child' \<Rightarrow> Inr (dict_set current part (JObj child')))
      | JLeaf _ \<Rightarrow> Inl TypeError)"

fun unflatten_loop :: "flat_dict \<Rightarrow> document \<Rightarrow> error + document" where
  "unflatten_loop [] nested_dict = Inr nested_dict"
| "unflatten_loop ((key, v) # rest) nested_dict =
     (if v = [] then unflatten_loop rest nested_dict
      else (let parts = split_key key in
            case walk_assign nested_dict (butlast parts) (last parts) v of
              Inl e \<Rightarrow> Inl e
            | Inr nested_dict' \<Rightarrow> unflatten_loop rest nested_dict'))"

definition unflatten_dict :: "flat_dict \<Rightarrow> error + document" where
  "unflatten_dict flat = unflatten_loop flat []"

section \<open>\<^verbatim>\<open>create_excel\<close> (json_to_excel.py)\<close>

type_synonym lang_dicts = "(string \<times> flat_dict) list"

text \<open>
  A pandas \<^verbatim>\<open>DataFrame\<close>: the column labels and, for every index label, the cells of the
  row in column order. A cell that has no value is \<^verbatim>\<open>nan\<close>.
\<close>

record dataframe =
  df_columns :: "string list"
  df_rows :: "(string \<times> scalar list) list"

definition df_index :: "dataframe \<Rightarrow> string list" where
  "df_index df = map fst (df_rows df)"

definition cell_of :: "string list \<Rightarrow> scalar list \<Rightarrow> string \<Rightarrow> scalar" where
  "cell_of cols cells c = (case map_of (zip cols cells) c of None \<Rightarrow> SNaN | Some x \<Rightarrow> x)"

text \<open>The cell of the frame at an index label and a column label, when both exist.\<close>

definition df_cell :: "dataframe \<Rightarrow> string \<Rightarrow> string \<Rightarrow> scalar option" where
  "df_cell df key c =
     (case map_of (df_rows df) key of
        None \<Rightarrow> None
      | Some cells \<Rightarrow> map_of (zip (df_columns df) cells) c)"

text \<open>The labels of a list in the order of their first appearance.\<close>

definition first_seen :: "'a list \<Rightarrow> 'a list" where
  "first_seen xs = rev (remdups (rev xs))"

text \<open>
  \<^verbatim>\<open>pd.DataFrame.from_dict(df_data, orient='index')\<close> on a dictionary of dictionaries: the
  outer keys become the index, the inner keys become the columns in the order in which they
  are first met, and a missing inner key gives \<^verbatim>\<open>nan\<close>. A dictionary with no rows gives a
  frame with no columns.
\<close>

definition from_dict_index :: "(string \<times> flat_dict) list \<Rightarrow> dataframe" where
  "from_dict_index df_data =
     (let cols = first_seen (concat (map (\<lambda>(key, row). map fst row) df_data)) in
      \<lparr>df_columns = cols,
       df_rows = map (\<lambda>(key, row).
         (key, map (\<lambda>c. case dict_get row c of None \<Rightarrow> SNaN | Some v \<Rightarrow> SStr v) cols)) df_data\<rparr>)"

text \<open>\<^verbatim>\<open>df[cols]\<close> with a list of labels: \<^verbatim>\<open>KeyError\<close> when a label is not a column.\<close>

datatype frame_error = KeyError

definition select_columns :: "dataframe \<Rightarrow> string list \<Rightarrow> frame_error + dataframe" where
  "select_columns df cols =
     (if \<forall>c \<in> set cols. c \<in> set (df_columns df)
      then Inr \<lparr>df_columns = cols,
                df_rows = map (\<lambda>(key, cells). (key, map (cell_of (df_columns df) cells) cols))
                              (df_rows df)\<rparr>
      else Inl KeyError)"

text \<open>\<^verbatim>\<open>all_keys\<close> is a set; only its sorted list is used.\<close>

definition all_keys :: "lang_dicts \<Rightarrow> string list" where
  "all_keys translations = remdups (concat (map (\<lambda>(lang_code, lang_dict). map fst lang_dict) translations))"

definition build_df_data :: "lang_dicts \<Rightarrow> (string \<times> flat_dict) list" where
  "build_df_data translations =
     map (\<lambda>key. (key, map (\<lambda>(lang_code, lang_dict).
                    (lang_code, case dict_get lang_dict key of None \<Rightarrow> [] | Some v \<Rightarrow> v))
                  translations))
         (sort (all_keys translations))"

definition order_columns :: "string list \<Rightarrow> string \<Rightarrow> string list" where
  "order_columns cols priority_lang =
     (if priority_lang \<in> set cols then priority_lang # sort (remove1 priority_lang cols)
      else sort cols)"

text \<open>
  \<open>create_excel\<close> gives the frame that is handed to \<^verbatim>\<open>to_excel\<close>; writing the file and
  its messages are not part of the model.
\<close>

definition create_excel :: "lang_dicts \<Rightarrow> string \<Rightarrow> frame_error + dataframe" where
  "create_excel translations priority_lang =
     (let df = from_dict_index (build_df_data translations) in
      select_columns df (order_columns (df_columns df) priority_lang))"

section \<open>\<^verbatim>\<open>read_excel_to_translations\<close> (excel_to_json.py)\<close>

text \<open>
  The sheet of a workbook as it is stored: the texts of the \<^verbatim>\<open>Key\<close> column and, for every
  other column, its header and its cells from the first data row to the last. A cell is
  blank or holds a text; cells that hold numbers, booleans or dates are outside the model.
\<close>

datatype xl_cell = Blank | Text string

record worksheet =
  ws_keys :: "string list"
  ws_columns :: "(string \<times> xl_cell list) list"

text \<open>
  What is behind the path \<^verbatim>\<open>excel_file\<close>: no file, a file that \<^verbatim>\<open>pd.read_excel\<close> cannot read
  as a table with a \<^verbatim>\<open>Key\<close> column, or a sheet.
\<close>

datatype excel_file = NoFile | Unreadable | Sheet worksheet

text \<open>
  \<^verbatim>\<open>pd.read_excel(excel_file, index_col='Key')\<close> is called with the defaults
  \<^verbatim>\<open>na_values=None\<close> and \<^verbatim>\<open>keep_default_na=True\<close>: a blank cell is read as \<^verbatim>\<open>nan\<close>, and so
  is a cell whose text is one of the default markers of a missing value.
\<close>

definition na_values :: "string list" where
  "na_values =
     ['''', ''#N/A'', ''#N/A N/A'', ''#NA'', ''-1.#IND'', ''-1.#QNAN'', ''-NaN'', ''-nan'',
      ''1.#IND'', ''1.#QNAN'', ''<NA>'', ''N/A'', ''NA'', ''NULL'', ''NaN'', ''None'',
      ''n/a'', ''nan'', ''null'']"

definition read_cell :: "xl_cell \<Rightarrow> scalar" where
  "read_cell c = (case c of Blank \<Rightarrow> SNaN
                  | Text s \<Rightarrow> if s \<in> set na_values then SNaN else SStr s)"

text \<open>
  The frame that \<^verbatim>\<open>pd.read_excel\<close> returns, column by column: the index labels and, for
  every column label, the values of the column in index order.

  After the missing values are marked the reader infers a type for every column: a column
  whose texts all read as numbers, or all as booleans, is converted to these values (to
  floats when a value is missing), any other column is left as it is. This inference is
  the parameter \<open>infer\<close>. The labels of the \<^verbatim>\<open>Key\<close> column are taken as the reader gives
  them.
\<close>

record frame =
  fr_index :: "string list"
  fr_columns :: "(string \<times> scalar list) list"

definition pd_read_excel :: "(scalar list \<Rightarrow> scalar list) \<Rightarrow> worksheet \<Rightarrow> frame" where
  "pd_read_excel infer ws =
     \<lparr>fr_index = ws_keys ws,
      fr_columns = map (\<lambda>(name, cells). (name, infer (map read_cell cells))) (ws_columns ws)\<rparr>"

definition notna :: "scalar \<Rightarrow> bool" where
  "notna v = (v \<noteq> SNaN \<and> v \<noteq> SNone)"

text \<open>\<^verbatim>\<open>df[lang_code].items()\<close>: the index labels with the values of one column.\<close>

definition series_items :: "frame \<Rightarrow> string \<Rightarrow> (string \<times> scalar) list" where
  "series_items df c =
     zip (fr_index df) (case map_of (fr_columns df) c of None \<Rightarrow> [] | Some vs \<Rightarrow> vs)"

definition lang_dict_of :: "frame \<Rightarrow> string \<Rightarrow> flat_dict" where
  "lang_dict_of df lang_code =
     dict_of (map (\<lambda>(key, v). (key, py_str v))
                  (filter (\<lambda>(key, v). notna v) (series_items df lang_code)))"

fun read_excel_to_translations ::
  "(scalar list \<Rightarrow> scalar list) \<Rightarrow> excel_file \<Rightarrow> error + lang_dicts" where
  "read_excel_to_translations infer NoFile = Inl FileNotFoundError"
| "read_excel_to_translations infer Unreadable = Inl ValueError"
| "read_excel_to_translations infer (Sheet ws) =
     (let df = pd_read_excel infer ws in
      Inr (foldl (\<lambda>translations lang_code.
                    dict_set translations lang_code (lang_dict_of df lang_code))
                 [] (map fst (fr_columns df))))"

section \<open>Language codes, loading and saving\<close>

























section \<open>Auxiliary notions for the properties\<close>

abbreviation assign_all :: "('k \<times> 'v) list \<Rightarrow> ('k \<times> 'v) list \<Rightarrow> ('k \<times> 'v) list" where
  "assign_all acc items \<equiv> foldl (\<lambda>d (k, v). dict_set d k v) acc items"

text \<open>
  The strip as the specification words it: one pair of enclosing double quotes, once.
\<close>

definition spec_strip_one_pair :: "string \<Rightarrow> string" where
  "spec_strip_one_pair s =
     (if 2 \<le> length s \<and> hd s = dquote \<and> last s = dquote then butlast (tl s) else s)"

text \<open>
  The leaves of a document with the keys that \<open>flatten_dict\<close> builds for their paths,
  in traversal order.
\<close>

fun leaf_entries :: "document \<Rightarrow> string \<Rightarrow> (string \<times> scalar) list" where
  "leaf_entries [] parent_key = []"
| "leaf_entries ((k, JObj v) # d) parent_key =
     leaf_entries v (new_key parent_key k) @ leaf_entries d parent_key"
| "leaf_entries ((k, JLeaf v) # d) parent_key =
     (new_key parent_key k, v) # leaf_entries d parent_key"

text \<open>
  The values at the leaves of a document.
\<close>

fun leaf_values :: "document \<Rightarrow> scalar list" where
  "leaf_values [] = []"
| "leaf_values ((k, JLeaf v) # d) = v # leaf_values d"
| "leaf_values ((k, JObj sub) # d) = leaf_values sub @ leaf_values d"

text \<open>
  \<open>leaf_at d q\<close>: walking the segments \<open>q\<close> from the root of \<open>d\<close> ends at a leaf.
\<close>

fun leaf_at :: "document \<Rightarrow> string list \<Rightarrow> bool" where
  "leaf_at d [] = False"
| "leaf_at d (k # ks) =
     (case dict_get d k of
        None \<Rightarrow> False
      | Some (JLeaf v) \<Rightarrow> ks = []
      | Some (JObj sub) \<Rightarrow> leaf_at sub ks)"

text \<open>
  A key is a proper \<^verbatim>\<open>.\<close>-prefix of another when its segments are a proper prefix of the
  other key's segments; a flat mapping is free of conflicts when no key is such a prefix of
  another key.
\<close>

definition dot_prefix :: "string \<Rightarrow> string \<Rightarrow> bool" where
  "dot_prefix k k' = strict_prefix (split_key k) (split_key k')"

definition conflict_free :: "flat_dict \<Rightarrow> bool" where
  "conflict_free flat = (\<forall>(k, v) \<in> set flat. \<forall>(k', v') \<in> set flat. \<not> dot_prefix k k')"

text \<open>
  The documents on which flattening can be undone. A segment name is non-empty and has no
  \<^verbatim>\<open>.\<close>; a leaf is a non-empty string that neither starts nor ends with a double quote;
  the keys of a mapping are distinct (as in any Python dictionary); a mapping below the
  root is not empty.
\<close>

definition segment_ok :: "string \<Rightarrow> bool" where
  "segment_ok k = (k \<noteq> [] \<and> dot \<notin> set k)"

definition leaf_ok :: "scalar \<Rightarrow> bool" where
  "leaf_ok v =
     (case v of SStr s \<Rightarrow> s \<noteq> [] \<and> hd s \<noteq> dquote \<and> last s \<noteq> dquote | _ \<Rightarrow> False)"

fun round_trip_doc :: "document \<Rightarrow> bool" where
  "round_trip_doc [] = True"
| "round_trip_doc ((k, JLeaf v) # d) =
     (segment_ok k \<and> leaf_ok v \<and> k \<notin> fst ` set d \<and> round_trip_doc d)"
| "round_trip_doc ((k, JObj sub) # d) =
     (segment_ok k \<and> sub \<noteq> [] \<and> round_trip_doc sub \<and> k \<notin> fst ` set d \<and> round_trip_doc d)"

text \<open>
  The hypothesis of the round-trip property as the specification words it: every leaf is a
  string.
\<close>

definition string_leaves :: "document \<Rightarrow> bool" where
  "string_leaves d = list_all (\<lambda>v. case v of SStr s \<Rightarrow> True | _ \<Rightarrow> False) (leaf_values d)"

text \<open>
  The entries of a flattened document with the key kept as its list of segments, and the
  key that \<open>flatten_dict\<close> builds from a parent key and a list of segments.
\<close>

fun seg_entries :: "document \<Rightarrow> (string list \<times> string) list" where
  "seg_entries [] = []"
| "seg_entries ((k, JLeaf v) # d) = ([k], strip_quotes (py_str v)) # seg_entries d"
| "seg_entries ((k, JObj sub) # d) =
     map (\<lambda>(path, t). (k # path, t)) (seg_entries sub) @ seg_entries d"

definition join_key :: "string \<Rightarrow> string list \<Rightarrow> string" where
  "join_key parent_key path = foldl new_key parent_key path"

text \<open>
  The segments of a parent key; the empty parent key stands for the root.
\<close>

definition parent_segments :: "string \<Rightarrow> string list" where
  "parent_segments p = (if p = [] then [] else split_key p)"

text \<open>
  The loop of \<open>unflatten_dict\<close> on entries whose keys are already split.
\<close>

fun put_all :: "(string list \<times> string) list \<Rightarrow> document \<Rightarrow> error + document" where
  "put_all [] S = Inr S"
| "put_all ((path, v) # es) S =
     (case walk_assign S (butlast path) (last path) v of
        Inl e \<Rightarrow> Inl e
      | Inr S' \<Rightarrow> put_all es S')"

text \<open>
  What the table is to hold for a language and a key: the language's value for the key,
  or the empty string; and the union of the keys of all languages.
\<close>

definition cell_value :: "flat_dict \<Rightarrow> string \<Rightarrow> string" where
  "cell_value lang_dict key = (case dict_get lang_dict key of None \<Rightarrow> [] | Some v \<Rightarrow> v)"

definition key_union :: "lang_dicts \<Rightarrow> string set" where
  "key_union translations = (\<Union>(lang_code, lang_dict) \<in> set translations. fst ` set lang_dict)"





text \<open>
  \<open>value_at d q\<close>: the node that is reached by walking the segments \<open>q\<close> from the root
  of \<open>d\<close>, through mappings only.
\<close>

fun value_at :: "document \<Rightarrow> string list \<Rightarrow> json option" where
  "value_at d [] = None"
| "value_at d [k] = dict_get d k"
| "value_at d (k # k' # ks) =
     (case dict_get d k of
        Some (JObj sub) \<Rightarrow> value_at sub (k' # ks)
      | _ \<Rightarrow> None)"

text \<open>
  The segments of a key put together again with the separator.
\<close>

fun join_dots :: "string list \<Rightarrow> string" where
  "join_dots [] = []"
| "join_dots [p] = p"
| "join_dots (p # q # ps) = p @ dot # join_dots (q # ps)"

section \<open>Dictionaries\<close>

lemma dict_get_dict_set:
  "dict_get (dict_set d k v) k' = (if k' = k then Some v else dict_get d k')"
  by (induction d) (auto simp: dict_get_def)

lemma keys_dict_set: "fst ` set (dict_set d k v) = insert k (fst ` set d)"
  by (induction d) (force split: if_splits)+

lemma dict_set_new: "k \<notin> fst ` set d \<Longrightarrow> dict_set d k v = d @ [(k, v)]"
  by (induction d) auto

lemma dict_set_twice: "dict_set (dict_set d k v) k v' = dict_set d k v'"
  by (induction d) auto

lemma distinct_dict_set: "distinct (map fst d) \<Longrightarrow> distinct (map fst (dict_set d k v))"
  by (induction d) (auto simp: keys_dict_set)

lemma set_dict_set: "set (dict_set d k v) \<subseteq> insert (k, v) (set d)"
  by (induction d) (auto split: if_splits)

lemma dict_set_nonempty: "dict_set d k v \<noteq> []"
  by (cases d) (auto split: if_splits)

lemma assign_all_distinct:
  "distinct (map fst (acc @ xs)) \<Longrightarrow> assign_all acc xs = acc @ xs"
proof (induction xs arbitrary: acc)
  case Nil
  then show ?case by simp
next
  case (Cons x xs)
  obtain k v where x: "x = (k, v)" by (cases x)
  from Cons.prems have "k \<notin> fst ` set acc" by (auto simp: x)
  then have "dict_set acc k v = acc @ [(k, v)]" by (rule dict_set_new)
  moreover from Cons.prems have "distinct (map fst ((acc @ [(k, v)]) @ xs))" by (simp add: x)
  ultimately show ?case using Cons.IH [of "acc @ [(k, v)]"] by (simp add: x)
qed

lemma dict_of_distinct: "distinct (map fst xs) \<Longrightarrow> dict_of xs = xs"
  using assign_all_distinct [of "[]" xs] by (simp add: dict_of_def)



lemma assign_all_keys: "fst ` set (assign_all acc xs) = fst ` set acc \<union> fst ` set xs"
proof (induction xs arbitrary: acc)
  case Nil
  then show ?case by simp
next
  case (Cons x xs)
  obtain k v where x: "x = (k, v)" by (cases x)
  show ?case using Cons.IH [of "dict_set acc k v"] by (auto simp: x keys_dict_set)
qed

lemma keys_dict_of: "fst ` set (dict_of xs) = fst ` set xs"
  by (simp add: dict_of_def assign_all_keys)

lemma assign_all_set: "set (assign_all acc xs) \<subseteq> set acc \<union> set xs"
proof (induction xs arbitrary: acc)
  case Nil
  then show ?case by simp
next
  case (Cons x xs)
  obtain k v where x: "x = (k, v)" by (cases x)
  have "set (assign_all (dict_set acc k v) xs) \<subseteq> set (dict_set acc k v) \<union> set xs"
    by (rule Cons.IH)
  also have "\<dots> \<subseteq> set acc \<union> set (x # xs)" using set_dict_set [of acc k v] by (auto simp: x)
  finally show ?case by (simp add: x)
qed

lemma set_dict_of: "set (dict_of xs) \<subseteq> set xs"
  using assign_all_set [of "[]" xs] by (simp add: dict_of_def)

lemma assign_all_distinct_keys:
  "distinct (map fst acc) \<Longrightarrow> distinct (map fst (assign_all acc xs))"
  by (induction xs arbitrary: acc) (auto simp: distinct_dict_set split: prod.splits)

lemma distinct_dict_of: "distinct (map fst (dict_of xs))"
  by (simp add: dict_of_def assign_all_distinct_keys)

section \<open>Quote stripping and the entries of a flattened set\<close>

lemma strip_quotes_decomp:
  "\<exists>m n. s = replicate m dquote @ strip_quotes s @ replicate n dquote"
proof -
  let ?P = "\<lambda>c. c = dquote"
  let ?t = "dropWhile ?P s"
  let ?a = "takeWhile ?P s"
  let ?b = "takeWhile ?P (rev ?t)"
  have lead: "replicate (length ?a) dquote = ?a"
    by (rule replicate_length_same) (auto dest: set_takeWhileD)
  have trail: "replicate (length ?b) dquote = ?b"
    by (rule replicate_length_same) (auto dest: set_takeWhileD)
  have e: "rev (?b @ dropWhile ?P (rev ?t)) = rev (rev ?t)"
    by (simp only: takeWhile_dropWhile_id)
  have "strip_quotes s @ rev ?b = rev (?b @ dropWhile ?P (rev ?t))"
    by (simp only: rev_append strip_quotes_def)
  then have t: "strip_quotes s @ rev ?b = ?t"
    by (simp only: e rev_rev_ident)
  have "rev ?b = rev (replicate (length ?b) dquote)" by (simp only: trail)
  then have rb: "rev ?b = replicate (length ?b) dquote" by (simp only: rev_replicate)
  have "replicate (length ?a) dquote @ strip_quotes s @ replicate (length ?b) dquote
          = ?a @ (strip_quotes s @ rev ?b)"
    by (simp only: lead rb [symmetric])
  also have "\<dots> = ?a @ ?t" by (simp only: t)
  also have "\<dots> = s" by simp
  finally have "s = replicate (length ?a) dquote @ strip_quotes s @ replicate (length ?b) dquote"
    by (rule sym)
  then show ?thesis by blast
qed

lemma strip_quotes_last: "strip_quotes s \<noteq> [] \<Longrightarrow> last (strip_quotes s) \<noteq> dquote"
proof -
  let ?P = "\<lambda>c. c = dquote"
  let ?u = "dropWhile ?P (rev (dropWhile ?P s))"
  assume "strip_quotes s \<noteq> []"
  then have u: "?u \<noteq> []" by (simp add: strip_quotes_def)
  then have "hd ?u \<noteq> dquote" by (rule hd_dropWhile)
  moreover have "last (rev ?u) = hd ?u" using u by (simp add: last_rev)
  ultimately show ?thesis by (simp add: strip_quotes_def)
qed

lemma strip_quotes_hd: "strip_quotes s \<noteq> [] \<Longrightarrow> hd (strip_quotes s) \<noteq> dquote"
proof -
  let ?P = "\<lambda>c. c = dquote"
  let ?t = "dropWhile ?P s"
  let ?u = "dropWhile ?P (rev ?t)"
  assume "strip_quotes s \<noteq> []"
  then have u: "?u \<noteq> []" by (simp add: strip_quotes_def)
  have t: "?t \<noteq> []"
  proof
    assume "?t = []"
    then have "?u = []" by (simp only: rev.simps dropWhile.simps)
    with u show False by (rule notE)
  qed
  have "last (takeWhile ?P (rev ?t) @ ?u) = last ?u"
    by (simp only: last_appendR [OF u])
  then have "last ?u = last (rev ?t)" by (simp only: takeWhile_dropWhile_id)
  then have "last ?u = hd ?t" using t by (simp only: last_rev)
  then have "hd (rev ?u) = hd ?t" using u by (simp only: hd_rev)
  moreover have "hd ?t \<noteq> dquote" using t by (rule hd_dropWhile)
  ultimately show ?thesis by (simp add: strip_quotes_def)
qed

lemma strip_quotes_empty_iff: "strip_quotes s = [] \<longleftrightarrow> set s \<subseteq> {dquote}"
proof
  assume a: "strip_quotes s = []"
  obtain m n where "s = replicate m dquote @ strip_quotes s @ replicate n dquote"
    using strip_quotes_decomp by blast
  then have "s = replicate m dquote @ replicate n dquote" by (simp only: a append_Nil)
  then have "set s = set (replicate m dquote @ replicate n dquote)" by simp
  then show "set s \<subseteq> {dquote}" by (auto split: if_splits)
next
  assume a: "set s \<subseteq> {dquote}"
  then have "\<forall>x\<in>set s. x = dquote" by auto
  then have d: "dropWhile (\<lambda>c. c = dquote) s = []" by (simp only: dropWhile_eq_Nil_conv)
  show "strip_quotes s = []" unfolding strip_quotes_def d by simp
qed

lemma strip_quotes_id:
  "s \<noteq> [] \<Longrightarrow> hd s \<noteq> dquote \<Longrightarrow> last s \<noteq> dquote \<Longrightarrow> strip_quotes s = s"
proof -
  assume s: "s \<noteq> []" and h: "hd s \<noteq> dquote" and l: "last s \<noteq> dquote"
  from s h have 1: "dropWhile (\<lambda>c. c = dquote) s = s" by (cases s) auto
  from s l have "hd (rev s) \<noteq> dquote" by (simp add: hd_rev)
  with s have 2: "dropWhile (\<lambda>c. c = dquote) (rev s) = rev s" by (cases "rev s") auto
  show ?thesis by (simp add: strip_quotes_def 1 2)
qed

lemma flatten_items_keys:
  "fst ` set (flatten_items d p) = fst ` set (leaf_entries d p)"
  by (induction d p rule: flatten_items.induct) (simp_all add: image_Un keys_dict_of)

lemma flatten_items_entry:
  "(k, t) \<in> set (flatten_items d p) \<Longrightarrow>
     \<exists>v. (k, v) \<in> set (leaf_entries d p) \<and> t = strip_quotes (py_str v)"
proof (induction d p rule: flatten_items.induct)
  case (1 parent_key)
  then show ?case by simp
next
  case (2 k' v d parent_key)
  then show ?case using set_dict_of [of "flatten_items v (new_key parent_key k')"] by auto
next
  case (3 k' v d parent_key)
  then show ?case by auto
qed

lemma flatten_dict_keys: "fst ` set (flatten_dict d p) = fst ` set (leaf_entries d p)"
  by (simp add: flatten_dict_def keys_dict_of flatten_items_keys)

lemma flatten_dict_entry:
  "(k, t) \<in> set (flatten_dict d p) \<Longrightarrow>
     \<exists>v. (k, v) \<in> set (leaf_entries d p) \<and> t = strip_quotes (py_str v)"
  using set_dict_of [of "flatten_items d p"] flatten_items_entry [of k t d p]
  by (auto simp: flatten_dict_def)


section \<open>Walking and assigning in \<open>unflatten_dict\<close>\<close>

lemma split_key_nonempty: "split_key k \<noteq> []"
  by (induction k) (auto split: list.splits)

lemma leaf_values_dict_set:
  "set (leaf_values (dict_set d k x)) \<subseteq> set (leaf_values d) \<union> set (leaf_values [(k, x)])"
proof (induction d rule: leaf_values.induct)
  case 1
  then show ?case by simp
next
  case (2 k' v d)
  then show ?case by (cases x) auto
next
  case (3 k' sub d)
  then show ?case by (cases x) auto
qed

lemma leaf_values_child:
  "dict_get d k = Some (JObj c) \<Longrightarrow> set (leaf_values c) \<subseteq> set (leaf_values d)"
  by (induction d rule: leaf_values.induct) (auto simp: dict_get_def split: if_splits)

lemma walk_assign_leaf_values:
  "walk_assign S ps l v = Inr S' \<Longrightarrow> set (leaf_values S') \<subseteq> insert (SStr v) (set (leaf_values S))"
proof (induction ps arbitrary: S S')
  case Nil
  then show ?case using leaf_values_dict_set [of S l "JLeaf (SStr v)"] by auto
next
  case (Cons part parts)
  show ?case
  proof (cases "dict_get S part")
    case None
    with Cons.prems obtain c' where w: "walk_assign [] parts l v = Inr c'"
      and S': "S' = dict_set S part (JObj c')"
      by (auto split: sum.splits)
    from Cons.IH [OF w] have "set (leaf_values c') \<subseteq> {SStr v}" by simp
    then show ?thesis using leaf_values_dict_set [of S part "JObj c'"] by (auto simp: S')
  next
    case (Some j)
    show ?thesis
    proof (cases j)
      case (JLeaf x)
      with Some Cons.prems show ?thesis by simp
    next
      case (JObj c)
      with Some Cons.prems obtain c' where w: "walk_assign c parts l v = Inr c'"
        and S': "S' = dict_set S part (JObj c')"
        by (auto split: sum.splits)
      from Cons.IH [OF w] have "set (leaf_values c') \<subseteq> insert (SStr v) (set (leaf_values c))" .
      moreover have "set (leaf_values c) \<subseteq> set (leaf_values S)"
        using Some JObj leaf_values_child [of S part c] by simp
      ultimately show ?thesis using leaf_values_dict_set [of S part "JObj c'"] by (auto simp: S')
    qed
  qed
qed

lemma unflatten_loop_leaf_values:
  "unflatten_loop flat S = Inr d \<Longrightarrow> SStr [] \<notin> set (leaf_values S) \<Longrightarrow>
     SStr [] \<notin> set (leaf_values d)"
proof (induction flat arbitrary: S)
  case Nil
  then show ?case by simp
next
  case (Cons x rest)
  obtain key v where x: "x = (key, v)" by (cases x)
  show ?case
  proof (cases "v = []")
    case True
    with Cons show ?thesis by (simp add: x)
  next
    case False
    with Cons.prems obtain S' where
      w: "walk_assign S (butlast (split_key key)) (last (split_key key)) v = Inr S'"
      and r: "unflatten_loop rest S' = Inr d"
      by (auto simp: x Let_def split: sum.splits)
    from walk_assign_leaf_values [OF w] Cons.prems(2) False
    have "SStr [] \<notin> set (leaf_values S')" by auto
    with Cons.IH [OF r] show ?thesis .
  qed
qed

lemma unflatten_loop_filter:
  "unflatten_loop (filter (\<lambda>(k, v). v \<noteq> []) flat) S = unflatten_loop flat S"
  by (induction flat arbitrary: S) (auto simp: Let_def split: sum.splits)

lemma leaf_at_empty: "\<not> leaf_at [] q"
  by (cases q) (simp_all add: dict_get_def)

lemma walk_assign_leaf_at:
  "walk_assign S ps l v = Inr S' \<Longrightarrow> leaf_at S' q \<Longrightarrow> leaf_at S q \<or> q = ps @ [l]"
proof (induction ps arbitrary: S S' q)
  case Nil
  then obtain k ks where q: "q = k # ks" by (cases q) auto
  from Nil.prems(1) have S': "S' = dict_set S l (JLeaf (SStr v))" by simp
  show ?case
  proof (cases "k = l")
    case True
    with Nil.prems(2) show ?thesis by (simp add: q S' dict_get_dict_set)
  next
    case False
    with Nil.prems(2) show ?thesis by (simp add: q S' dict_get_dict_set)
  qed
next
  case (Cons part parts)
  then obtain k ks where q: "q = k # ks" by (cases q) auto
  let ?child = "case dict_get S part of None \<Rightarrow> JObj [] | Some c \<Rightarrow> c"
  from Cons.prems(1) obtain c c' where c: "?child = JObj c"
    and w: "walk_assign c parts l v = Inr c'"
    and S': "S' = dict_set S part (JObj c')"
    by (auto split: json.splits sum.splits)
  show ?case
  proof (cases "k = part")
    case False
    with Cons.prems(2) show ?thesis by (simp add: q S' dict_get_dict_set)
  next
    case True
    with Cons.prems(2) have "leaf_at c' ks" by (simp add: q S' dict_get_dict_set)
    from Cons.IH [OF w this] have "leaf_at c ks \<or> ks = parts @ [l]" .
    then show ?thesis
    proof
      assume lc: "leaf_at c ks"
      with leaf_at_empty have "c \<noteq> []" by auto
      with c have "dict_get S part = Some (JObj c)" by (auto split: option.splits)
      with lc True show ?thesis by (cases ks) (simp_all add: q)
    next
      assume "ks = parts @ [l]"
      with True show ?thesis by (simp add: q)
    qed
  qed
qed

lemma walk_assign_succeeds:
  "(\<And>q. prefix q ps \<Longrightarrow> \<not> leaf_at S q) \<Longrightarrow> \<exists>S'. walk_assign S ps l v = Inr S'"
proof (induction ps arbitrary: S)
  case Nil
  then show ?case by simp
next
  case (Cons part parts)
  let ?child = "case dict_get S part of None \<Rightarrow> JObj [] | Some c \<Rightarrow> c"
  have "\<not> leaf_at S [part]" using Cons.prems [of "[part]"] by simp
  then obtain c where c: "?child = JObj c"
    by (cases "dict_get S part") (auto split: json.splits)
  have "\<not> leaf_at c q" if "prefix q parts" for q
  proof (cases "dict_get S part")
    case None
    with c show ?thesis using leaf_at_empty by simp
  next
    case (Some j)
    with c have j: "dict_get S part = Some (JObj c)" by simp
    from that have "prefix (part # q) (part # parts)" by simp
    then have n: "\<not> leaf_at S (part # q)" by (rule Cons.prems)
    show ?thesis
    proof (cases q)
      case Nil
      then show ?thesis by simp
    next
      case (Cons a list)
      with n j show ?thesis by simp
    qed
  qed
  then obtain c' where "walk_assign c parts l v = Inr c'" using Cons.IH [of c] by blast
  with c show ?case by simp
qed

lemma unflatten_loop_succeeds:
  "conflict_free flat \<Longrightarrow>
   (\<And>k v q. (k, v) \<in> set flat \<Longrightarrow> leaf_at S q \<Longrightarrow> \<not> strict_prefix q (split_key k)) \<Longrightarrow>
   \<exists>d. unflatten_loop flat S = Inr d"
proof (induction flat arbitrary: S)
  case Nil
  then show ?case by simp
next
  case (Cons x rest)
  obtain key v where x: "x = (key, v)" by (cases x)
  from Cons.prems(1) have cf: "conflict_free rest" by (auto simp: conflict_free_def)
  show ?case
  proof (cases "v = []")
    case True
    have "\<exists>d. unflatten_loop rest S = Inr d"
      using cf Cons.prems(2) by (intro Cons.IH) auto
    with True show ?thesis by (simp add: x)
  next
    case False
    let ?parts = "split_key key"
    have parts: "butlast ?parts @ [last ?parts] = ?parts"
      using split_key_nonempty by simp
    have "\<not> leaf_at S q" if "prefix q (butlast ?parts)" for q
    proof
      assume l: "leaf_at S q"
      from that have "strict_prefix q (butlast ?parts @ [last ?parts])"
        by (auto simp: strict_prefix_def prefix_def)
      then have "strict_prefix q ?parts" by (simp only: parts)
      moreover have "\<not> strict_prefix q ?parts" using Cons.prems(2) [of key v q] l by (simp add: x)
      ultimately show False by simp
    qed
    then obtain S' where w: "walk_assign S (butlast ?parts) (last ?parts) v = Inr S'"
      using walk_assign_succeeds by blast
    have "\<not> strict_prefix q (split_key k')" if "(k', v') \<in> set rest" and "leaf_at S' q" for k' v' q
    proof -
      from walk_assign_leaf_at [OF w that(2)] have "leaf_at S q \<or> q = ?parts" by (simp only: parts)
      then show ?thesis
      proof
        assume "leaf_at S q"
        then show ?thesis using Cons.prems(2) [of k' v' q] that(1) by simp
      next
        assume "q = ?parts"
        moreover have "\<not> dot_prefix key k'"
          using Cons.prems(1) that(1) by (auto simp: conflict_free_def x)
        ultimately show ?thesis by (simp add: dot_prefix_def)
      qed
    qed
    then have "\<exists>d. unflatten_loop rest S' = Inr d" using cf by (intro Cons.IH) auto
    with w False show ?thesis by (simp add: x Let_def)
  qed
qed

section \<open>Keys and their segments\<close>

lemma split_key_append_dot: "split_key (a @ dot # b) = split_key a @ split_key b"
proof (induction a)
  case Nil
  then show ?case by simp
next
  case (Cons c cs)
  show ?case
  proof (cases "c = dot")
    case True
    with Cons show ?thesis by simp
  next
    case False
    obtain p ps where "split_key cs = p # ps"
      using split_key_nonempty [of cs] by (cases "split_key cs") auto
    with False Cons show ?thesis by simp
  qed
qed

lemma split_key_no_dot: "dot \<notin> set k \<Longrightarrow> split_key k = [k]"
  by (induction k) auto

lemma new_key_nonempty: "k \<noteq> [] \<Longrightarrow> new_key p k \<noteq> []"
  by (simp add: new_key_def)

lemma parent_segments_new_key:
  "segment_ok k \<Longrightarrow> parent_segments (new_key p k) = parent_segments p @ [k]"
  by (auto simp: parent_segments_def new_key_def segment_ok_def split_key_no_dot
      split_key_append_dot)

lemma parent_segments_join_key:
  "list_all segment_ok path \<Longrightarrow>
     parent_segments (join_key p path) = parent_segments p @ path"
proof (induction path arbitrary: p)
  case Nil
  then show ?case by (simp add: join_key_def)
next
  case (Cons k ks)
  then have "parent_segments (join_key (new_key p k) ks) = parent_segments (new_key p k) @ ks"
    by simp
  with Cons.prems show ?case by (simp add: join_key_def parent_segments_new_key)
qed

lemma split_key_join_key:
  assumes "list_all segment_ok path" and "path \<noteq> []"
  shows "split_key (join_key [] path) = path"
proof -
  from assms(1) have p: "parent_segments (join_key [] path) = path"
    using parent_segments_join_key [of path "[]"] by (simp add: parent_segments_def)
  with assms(2) have "join_key [] path \<noteq> []" by (auto simp: parent_segments_def)
  with p show ?thesis by (simp add: parent_segments_def)
qed

lemma join_key_inj:
  assumes "list_all segment_ok path" and "list_all segment_ok path'"
    and "join_key p path = join_key p path'"
  shows "path = path'"
proof -
  have "parent_segments (join_key p path) = parent_segments (join_key p path')"
    by (simp only: assms(3))
  then have "parent_segments p @ path = parent_segments p @ path'"
    by (simp only: parent_segments_join_key [OF assms(1)] parent_segments_join_key [OF assms(2)])
  then show ?thesis by (simp only: same_append_eq)
qed

lemma seg_entries_paths_ok:
  "round_trip_doc d \<Longrightarrow> (path, t) \<in> set (seg_entries d) \<Longrightarrow>
     list_all segment_ok path \<and> path \<noteq> [] \<and> t \<noteq> []"
proof (induction d arbitrary: path t rule: round_trip_doc.induct)
  case 1
  then show ?case by simp
next
  case (2 k v d)
  from "2.prems"(1) obtain s where "v = SStr s" "s \<noteq> []" "hd s \<noteq> dquote" "last s \<noteq> dquote"
    by (auto simp: leaf_ok_def split: scalar.splits)
  then have "strip_quotes (py_str v) \<noteq> []" by (simp add: strip_quotes_id)
  with 2 show ?case by auto
next
  case (3 k sub d)
  then show ?case by auto
qed

lemma seg_entries_hd:
  "(path, t) \<in> set (seg_entries d) \<Longrightarrow> path \<noteq> [] \<and> hd path \<in> fst ` set d"
  by (induction d arbitrary: path t rule: seg_entries.induct) force+

lemma seg_entries_distinct:
  "round_trip_doc d \<Longrightarrow> distinct (map fst (seg_entries d))"
proof (induction d rule: round_trip_doc.induct)
  case 1
  then show ?case by simp
next
  case (2 k v d)
  have "[k] \<notin> fst ` set (seg_entries d)"
  proof
    assume "[k] \<in> fst ` set (seg_entries d)"
    then obtain t where "([k], t) \<in> set (seg_entries d)" by auto
    from seg_entries_hd [OF this] have "k \<in> fst ` set d" by simp
    with "2.prems" show False by simp
  qed
  with 2 show ?case by simp
next
  case (3 k sub d)
  let ?up = "map (\<lambda>(path, t). (k # path, t)) (seg_entries sub)"
  have m: "map fst ?up = map ((#) k) (map fst (seg_entries sub))"
    by (simp add: case_prod_unfold comp_def)
  have dsub: "distinct (map fst (seg_entries sub))" using 3 by simp
  have "distinct (map ((#) k) (map fst (seg_entries sub)))"
  proof (rule iffD2 [OF distinct_map], rule conjI)
    show "distinct (map fst (seg_entries sub))" by (rule dsub)
    show "inj_on ((#) k) (set (map fst (seg_entries sub)))" by (rule inj_onI) simp
  qed
  then have d1: "distinct (map fst ?up)" by (simp only: m)
  have d2: "distinct (map fst (seg_entries d))" using 3 by simp
  have "set (map fst ?up) \<inter> set (map fst (seg_entries d)) = {}"
  proof (rule ccontr)
    assume "set (map fst ?up) \<inter> set (map fst (seg_entries d)) \<noteq> {}"
    then obtain path where a: "path \<in> set (map fst ?up)" and b: "path \<in> set (map fst (seg_entries d))"
      by blast
    from a have "hd path = k" by (auto simp: m)
    moreover from b obtain t where "(path, t) \<in> set (seg_entries d)" by auto
    from seg_entries_hd [OF this] have "hd path \<in> fst ` set d" by simp
    ultimately show False using "3.prems" by simp
  qed
  with d1 d2 show ?case by simp
qed

lemma seg_entries_nonempty: "round_trip_doc d \<Longrightarrow> d \<noteq> [] \<Longrightarrow> seg_entries d \<noteq> []"
  by (induction d rule: round_trip_doc.induct) auto

lemma flatten_items_seg_entries:
  "round_trip_doc d \<Longrightarrow>
     flatten_items d p = map (\<lambda>(path, t). (join_key p path, t)) (seg_entries d)"
proof (induction d arbitrary: p rule: round_trip_doc.induct)
  case 1
  then show ?case by simp
next
  case (2 k v d)
  then show ?case by (simp add: join_key_def)
next
  case (3 k sub d)
  let ?f = "\<lambda>(path, t). (join_key (new_key p k) path, t)"
  from 3 have sub: "flatten_items sub (new_key p k) = map ?f (seg_entries sub)" by simp
  have "inj_on (join_key (new_key p k)) (set (map fst (seg_entries sub)))"
  proof (rule inj_onI)
    fix x y
    assume "x \<in> set (map fst (seg_entries sub))" "y \<in> set (map fst (seg_entries sub))"
      and e: "join_key (new_key p k) x = join_key (new_key p k) y"
    then obtain t t' where "(x, t) \<in> set (seg_entries sub)" "(y, t') \<in> set (seg_entries sub)"
      by auto
    with "3.prems" have "list_all segment_ok x" "list_all segment_ok y"
      using seg_entries_paths_ok [of sub] by auto
    then show "x = y" using e by (rule join_key_inj)
  qed
  moreover have "distinct (map fst (seg_entries sub))"
    using "3.prems" by (simp add: seg_entries_distinct)
  ultimately have "distinct (map (join_key (new_key p k)) (map fst (seg_entries sub)))"
    by (simp only: distinct_map)
  moreover have "map fst (map ?f (seg_entries sub))
                 = map (join_key (new_key p k)) (map fst (seg_entries sub))"
    by (simp add: case_prod_unfold comp_def)
  ultimately have "distinct (map fst (flatten_items sub (new_key p k)))"
    by (simp only: sub)
  then have "dict_of (flatten_items sub (new_key p k)) = flatten_items sub (new_key p k)"
    by (rule dict_of_distinct)
  with 3 sub show ?case by (simp add: join_key_def case_prod_unfold comp_def)
qed

section \<open>Rebuilding a document from its entries\<close>

lemma dict_set_same: "dict_get d k = Some v \<Longrightarrow> dict_set d k v = d"
  by (induction d) (auto simp: dict_get_def split: if_splits)

lemma put_all_append:
  "put_all (xs @ ys) S = (case put_all xs S of Inl e \<Rightarrow> Inl e | Inr S' \<Rightarrow> put_all ys S')"
  by (induction xs arbitrary: S) (auto split: sum.splits)

lemma put_all_below:
  "dict_get acc k = Some (JObj c0) \<Longrightarrow> (\<And>path t. (path, t) \<in> set es \<Longrightarrow> path \<noteq> []) \<Longrightarrow>
   put_all es c0 = Inr c \<Longrightarrow>
   put_all (map (\<lambda>(path, t). (k # path, t)) es) acc = Inr (dict_set acc k (JObj c))"
proof (induction es arbitrary: acc c0)
  case Nil
  then show ?case by (simp add: dict_set_same)
next
  case (Cons e es)
  obtain path t where e: "e = (path, t)" by (cases e)
  from Cons.prems(2) [of path t] have ne: "path \<noteq> []" by (simp add: e)
  from Cons.prems(3) obtain c1 where
    w: "walk_assign c0 (butlast path) (last path) t = Inr c1" and r: "put_all es c1 = Inr c"
    by (auto simp: e split: sum.splits)
  let ?acc = "dict_set acc k (JObj c1)"
  have step: "walk_assign acc (butlast (k # path)) (last (k # path)) t = Inr ?acc"
    using ne Cons.prems(1) w by simp
  have "dict_get ?acc k = Some (JObj c1)" by (simp add: dict_get_dict_set)
  moreover have "\<And>path t. (path, t) \<in> set es \<Longrightarrow> path \<noteq> []"
    using Cons.prems(2) by auto
  ultimately have "put_all (map (\<lambda>(path, t). (k # path, t)) es) ?acc
                     = Inr (dict_set ?acc k (JObj c))"
    using r by (rule Cons.IH)
  then show ?case using step by (simp add: e dict_set_twice del: walk_assign.simps)
qed

lemma put_all_new_child:
  assumes "k \<notin> fst ` set acc" and "es \<noteq> []"
    and "\<And>path t. (path, t) \<in> set es \<Longrightarrow> path \<noteq> []"
    and "put_all es [] = Inr c"
  shows "put_all (map (\<lambda>(path, t). (k # path, t)) es) acc = Inr (acc @ [(k, JObj c)])"
proof -
  from assms(2) obtain path t rest where es: "es = (path, t) # rest"
    by (cases es) auto
  from assms(3) [of path t] have ne: "path \<noteq> []" by (simp add: es)
  from assms(4) obtain c1 where
    w: "walk_assign [] (butlast path) (last path) t = Inr c1" and r: "put_all rest c1 = Inr c"
    by (auto simp: es split: sum.splits)
  from assms(1) have none: "dict_get acc k = None"
    by (simp add: dict_get_def map_of_eq_None_iff)
  let ?acc = "dict_set acc k (JObj c1)"
  have step: "walk_assign acc (butlast (k # path)) (last (k # path)) t = Inr ?acc"
    using ne none w by simp
  have "dict_get ?acc k = Some (JObj c1)" by (simp add: dict_get_dict_set)
  moreover have "\<And>path t. (path, t) \<in> set rest \<Longrightarrow> path \<noteq> []"
    using assms(3) by (auto simp: es)
  ultimately have "put_all (map (\<lambda>(path, t). (k # path, t)) rest) ?acc
                     = Inr (dict_set ?acc k (JObj c))"
    using r by (rule put_all_below)
  moreover have "dict_set acc k (JObj c) = acc @ [(k, JObj c)]"
    using assms(1) by (rule dict_set_new)
  ultimately show ?thesis using step by (simp add: es dict_set_twice del: walk_assign.simps)
qed

lemma put_all_rebuilds:
  "round_trip_doc d \<Longrightarrow> fst ` set acc \<inter> fst ` set d = {} \<Longrightarrow>
     put_all (seg_entries d) acc = Inr (acc @ d)"
proof (induction d arbitrary: acc rule: round_trip_doc.induct)
  case 1
  then show ?case by simp
next
  case (2 k v d)
  from "2.prems"(1) obtain s where v: "v = SStr s" and "s \<noteq> []" "hd s \<noteq> dquote" "last s \<noteq> dquote"
    by (auto simp: leaf_ok_def split: scalar.splits)
  then have t: "strip_quotes s = s" by (simp add: strip_quotes_id)
  from "2.prems"(2) have "k \<notin> fst ` set acc" by auto
  then have new: "dict_set acc k (JLeaf (SStr s)) = acc @ [(k, JLeaf (SStr s))]"
    by (rule dict_set_new)
  have "fst ` set (acc @ [(k, JLeaf v)]) \<inter> fst ` set d = {}"
    using "2.prems" by auto
  with "2.prems"(1) have "put_all (seg_entries d) (acc @ [(k, JLeaf v)]) = Inr ((acc @ [(k, JLeaf v)]) @ d)"
    by (intro "2.IH") simp_all
  then show ?case by (simp add: t new v)
next
  case (3 k sub d)
  from "3.prems"(1) have "put_all (seg_entries sub) [] = Inr ([] @ sub)"
    by (intro "3.IH"(1)) simp_all
  then have sub: "put_all (seg_entries sub) [] = Inr sub" by simp
  from "3.prems"(2) have "k \<notin> fst ` set acc" by auto
  moreover from "3.prems"(1) have "seg_entries sub \<noteq> []" by (simp add: seg_entries_nonempty)
  moreover have "\<And>path t. (path, t) \<in> set (seg_entries sub) \<Longrightarrow> path \<noteq> []"
    using seg_entries_hd by blast
  ultimately have up: "put_all (map (\<lambda>(path, t). (k # path, t)) (seg_entries sub)) acc
                         = Inr (acc @ [(k, JObj sub)])"
    using sub by (rule put_all_new_child)
  have "fst ` set (acc @ [(k, JObj sub)]) \<inter> fst ` set d = {}"
    using "3.prems" by auto
  with "3.prems"(1) have "put_all (seg_entries d) (acc @ [(k, JObj sub)]) = Inr ((acc @ [(k, JObj sub)]) @ d)"
    by (intro "3.IH"(2)) simp_all
  with up show ?case by (simp add: put_all_append)
qed

lemma unflatten_loop_put_all:
  "(\<And>path t. (path, t) \<in> set es \<Longrightarrow> list_all segment_ok path \<and> path \<noteq> [] \<and> t \<noteq> []) \<Longrightarrow>
   unflatten_loop (map (\<lambda>(path, t). (join_key [] path, t)) es) S = put_all es S"
proof (induction es arbitrary: S)
  case Nil
  then show ?case by simp
next
  case (Cons e es)
  obtain path t where e: "e = (path, t)" by (cases e)
  from Cons.prems [of path t] have ok: "list_all segment_ok path" "path \<noteq> []" "t \<noteq> []"
    by (simp_all add: e)
  then have sp: "split_key (join_key [] path) = path" by (simp add: split_key_join_key)
  have "\<And>S. unflatten_loop (map (\<lambda>(path, t). (join_key [] path, t)) es) S = put_all es S"
    using Cons.prems by (intro Cons.IH) auto
  then show ?case using ok(3) by (simp add: e sp Let_def split: sum.splits)
qed

text \<open>
  What the round trip gives where it is not the identity: an empty leaf disappears, enclosing
  quotes are lost, an empty mapping disappears, a segment with a \<^verbatim>\<open>.\<close> is split, and an empty
  segment name at the root is lost.
\<close>

lemma round_trip_fails_empty_leaf:
  "string_leaves [(''a'', JLeaf (SStr []))]
   \<and> conflict_free (flatten_dict [(''a'', JLeaf (SStr []))] [])
   \<and> unflatten_dict (flatten_dict [(''a'', JLeaf (SStr []))] []) = Inr []"
  by (simp add: string_leaves_def conflict_free_def dot_prefix_def flatten_dict_def dict_of_def
      new_key_def strip_quotes_def unflatten_dict_def)

lemma round_trip_fails_quoted_leaf:
  "string_leaves [(''a'', JLeaf (SStr [dquote, CHR ''x'', dquote]))]
   \<and> conflict_free (flatten_dict [(''a'', JLeaf (SStr [dquote, CHR ''x'', dquote]))] [])
   \<and> unflatten_dict (flatten_dict [(''a'', JLeaf (SStr [dquote, CHR ''x'', dquote]))] [])
       = Inr [(''a'', JLeaf (SStr ''x''))]"
  by (simp add: string_leaves_def conflict_free_def dot_prefix_def flatten_dict_def dict_of_def
      new_key_def strip_quotes_def unflatten_dict_def)

lemma round_trip_fails_empty_mapping:
  "string_leaves [(''a'', JObj [])]
   \<and> conflict_free (flatten_dict [(''a'', JObj [])] [])
   \<and> unflatten_dict (flatten_dict [(''a'', JObj [])] []) = Inr []"
  by (simp add: string_leaves_def conflict_free_def dot_prefix_def flatten_dict_def dict_of_def
      new_key_def strip_quotes_def unflatten_dict_def)

lemma round_trip_fails_dotted_segment:
  "string_leaves [(''a.b'', JLeaf (SStr ''x''))]
   \<and> conflict_free (flatten_dict [(''a.b'', JLeaf (SStr ''x''))] [])
   \<and> unflatten_dict (flatten_dict [(''a.b'', JLeaf (SStr ''x''))] [])
       = Inr [(''a'', JObj [(''b'', JLeaf (SStr ''x''))])]"
  by (simp add: string_leaves_def conflict_free_def dot_prefix_def flatten_dict_def dict_of_def
      new_key_def strip_quotes_def unflatten_dict_def dict_get_def)

lemma round_trip_fails_empty_segment:
  "string_leaves [([], JObj [(''a'', JLeaf (SStr ''x''))])]
   \<and> conflict_free (flatten_dict [([], JObj [(''a'', JLeaf (SStr ''x''))])] [])
   \<and> unflatten_dict (flatten_dict [([], JObj [(''a'', JLeaf (SStr ''x''))])] [])
       = Inr [(''a'', JLeaf (SStr ''x''))]"
  by (simp add: string_leaves_def conflict_free_def dot_prefix_def flatten_dict_def dict_of_def
      new_key_def strip_quotes_def unflatten_dict_def dict_get_def)

section \<open>The frame built by \<open>create_excel\<close>\<close>

lemma set_first_seen: "set (first_seen xs) = set xs"
  by (simp add: first_seen_def)

lemma distinct_first_seen: "distinct (first_seen xs)"
  by (simp add: first_seen_def)

lemma set_all_keys: "set (all_keys translations) = key_union translations"
  by (auto simp: all_keys_def key_union_def)

lemma distinct_all_keys: "distinct (all_keys translations)"
  by (simp add: all_keys_def)

lemma index_build_df_data: "map fst (build_df_data translations) = sort (all_keys translations)"
  by (simp add: build_df_data_def comp_def)

lemma columns_from_dict:
  "set (df_columns (from_dict_index (build_df_data translations)))
     = (if all_keys translations = [] then {} else fst ` set translations)"
proof (cases "all_keys translations = []")
  case True
  then show ?thesis by (simp add: from_dict_index_def build_df_data_def Let_def first_seen_def)
next
  case False
  then have "set (sort (all_keys translations)) \<noteq> {}" by simp
  then show ?thesis
    by (auto simp: from_dict_index_def build_df_data_def Let_def set_first_seen
        case_prod_unfold comp_def)
qed

lemma distinct_columns_from_dict:
  "distinct (df_columns (from_dict_index df_data))"
  by (simp add: from_dict_index_def Let_def distinct_first_seen)

lemma set_order_columns: "set (order_columns cols p) = set cols"
proof (cases "p \<in> set cols")
  case True
  have "set (remove1 p cols) \<subseteq> set cols" by (rule set_remove1_subset)
  moreover have "\<forall>x. x \<in> set cols \<and> x \<noteq> p \<longrightarrow> x \<in> set (remove1 p cols)"
    by (simp add: in_set_remove1)
  ultimately have "insert p (set (remove1 p cols)) = set cols" using True by blast
  with True show ?thesis by (simp add: order_columns_def)
next
  case False
  then show ?thesis by (simp add: order_columns_def)
qed

lemma distinct_order_columns: "distinct cols \<Longrightarrow> distinct (order_columns cols p)"
  by (auto simp: order_columns_def)

lemma order_columns_shape:
  "distinct cols \<Longrightarrow>
     (if p \<in> set cols
      then \<exists>rest. order_columns cols p = p # rest \<and> sorted rest \<and> set rest = set cols - {p}
      else sorted (order_columns cols p))"
  by (auto simp: order_columns_def)

lemma create_excel_frame:
  "create_excel translations p =
     Inr \<lparr>df_columns = order_columns (df_columns (from_dict_index (build_df_data translations))) p,
          df_rows = map (\<lambda>(key, cells).
                      (key, map (cell_of (df_columns (from_dict_index (build_df_data translations))) cells)
                        (order_columns (df_columns (from_dict_index (build_df_data translations))) p)))
                    (df_rows (from_dict_index (build_df_data translations)))\<rparr>"
  by (simp add: create_excel_def select_columns_def Let_def set_order_columns)

lemma row_lookup:
  "distinct (map fst translations) \<Longrightarrow> (lang_code, lang_dict) \<in> set translations \<Longrightarrow>
     dict_get (map (\<lambda>(lang_code, lang_dict). (lang_code, f lang_dict)) translations) lang_code
       = Some (f lang_dict)"
  by (induction "translations") (auto simp: dict_get_def rev_image_eqI)

lemma df_cell_create_excel:
  assumes "create_excel translations p = Inr df"
    and "key \<in> set (all_keys translations)" and "c \<in> fst ` set translations"
  shows "df_cell df key c =
           Some (case dict_get (map (\<lambda>(lang_code, lang_dict). (lang_code, cell_value lang_dict key))
                                    translations) c of
                   None \<Rightarrow> SNaN | Some v \<Rightarrow> SStr v)"
proof -
  let ?raw = "df_columns (from_dict_index (build_df_data translations))"
  let ?cols = "order_columns ?raw p"
  let ?row = "\<lambda>key. map (\<lambda>(lang_code, lang_dict). (lang_code, cell_value lang_dict key)) translations"
  let ?given = "\<lambda>key. map (\<lambda>c. case dict_get (?row key) c of None \<Rightarrow> SNaN | Some v \<Rightarrow> SStr v) ?raw"
  let ?cells = "\<lambda>key. map (cell_of ?raw (?given key)) ?cols"
  from assms(2) have ne: "all_keys translations \<noteq> []" by auto
  with assms(3) have c0: "c \<in> set ?raw" by (simp only: columns_from_dict if_False)
  then have c1: "c \<in> set ?cols" by (simp only: set_order_columns)
  have rows: "df_rows df = map (\<lambda>key. (key, ?cells key)) (sort (all_keys translations))"
    using assms(1) unfolding create_excel_frame
    by (auto simp: from_dict_index_def build_df_data_def Let_def comp_def cell_value_def)
  have cols: "df_columns df = ?cols"
    using assms(1) unfolding create_excel_frame by auto
  have "map_of (df_rows df) key = Some (?cells key)"
    using assms(2) by (simp add: rows map_of_map_restrict)
  moreover have "map_of (zip ?cols (?cells key)) c = Some (cell_of ?raw (?given key) c)"
    using c1 by (simp only: map_of_zip_map if_True)
  moreover have "cell_of ?raw (?given key) c
                   = (case dict_get (?row key) c of None \<Rightarrow> SNaN | Some v \<Rightarrow> SStr v)"
    using c0 by (simp only: cell_of_def map_of_zip_map if_True option.case)
  ultimately show ?thesis by (simp add: df_cell_def cols)
qed

text \<open>
  The example of the specification, evaluated: the columns are \<^verbatim>\<open>en-US\<close>, \<^verbatim>\<open>de-DE\<close>,
  \<^verbatim>\<open>fr-FR\<close> and the rows \<^verbatim>\<open>a.b\<close>, \<^verbatim>\<open>a.c\<close>, \<^verbatim>\<open>z\<close>.
\<close>

lemma create_excel_example:
  "create_excel [(''fr-FR'', [(''a.c'', ''c'')]), (''en-US'', [(''a.b'', ''b''), (''z'', ''end'')]), (''de-DE'', [])] ''en-US''
     = Inr \<lparr>df_columns = [''en-US'', ''de-DE'', ''fr-FR''],
            df_rows = [(''a.b'', [SStr ''b'', SStr [], SStr []]),
                       (''a.c'', [SStr [], SStr [], SStr ''c'']),
                       (''z'', [SStr ''end'', SStr [], SStr []])]\<rparr>"
  by (simp add: create_excel_def select_columns_def from_dict_index_def build_df_data_def
      all_keys_def order_columns_def first_seen_def cell_of_def dict_get_def Let_def)

lemma create_excel_rows_example:
  "create_excel [(''en-US'', [(''a.b'', ''b''), (''z'', ''end'')]), (''fr-FR'', [(''a.c'', ''c'')])] ''en-US''
     = Inr \<lparr>df_columns = [''en-US'', ''fr-FR''],
            df_rows = [(''a.b'', [SStr ''b'', SStr []]),
                       (''a.c'', [SStr [], SStr ''c'']),
                       (''z'', [SStr ''end'', SStr []])]\<rparr>"
  by (simp add: create_excel_def select_columns_def from_dict_index_def build_df_data_def
      all_keys_def order_columns_def first_seen_def cell_of_def dict_get_def Let_def)

section \<open>Invalid language codes when saving and loading\<close>












section \<open>The flattened sets read from a table\<close>














text \<open>
  A sheet, evaluated: \<^verbatim>\<open>fr-FR\<close> has no entry for the blank cell of \<^verbatim>\<open>a\<close>, and none for
  the cells of \<^verbatim>\<open>c\<close> and \<^verbatim>\<open>d\<close>, whose texts are markers of a missing value.
\<close>

lemma read_excel_example:
  "read_excel_to_translations id (Sheet \<lparr>ws_keys = [''a'', ''b'', ''c'', ''d''],
       ws_columns = [(''en-US'', [Text ''Hello'', Text ''Bye'', Text ''None of them'', Text ''Nothing'']),
                     (''fr-FR'', [Blank, Text ''Salut'', Text ''None'', Text ''null''])]\<rparr>)
     = Inr [(''en-US'', [(''a'', ''Hello''), (''b'', ''Bye''), (''c'', ''None of them''),
                         (''d'', ''Nothing'')]),
            (''fr-FR'', [(''b'', ''Salut'')])]"
  by code_simp

section \<open>A leaf on the way of a longer key\<close>

lemma walk_assign_error: "walk_assign S ps l v = Inl e \<Longrightarrow> e = TypeError"
  by (induction ps arbitrary: S) (auto split: json.splits sum.splits option.splits)

lemma walk_assign_sets_leaf: "walk_assign S ps l v = Inr S' \<Longrightarrow> leaf_at S' (ps @ [l])"
proof (induction ps arbitrary: S S')
  case Nil
  then show ?case by (auto simp: dict_get_dict_set)
next
  case (Cons part parts)
  let ?child = "case dict_get S part of None \<Rightarrow> JObj [] | Some c \<Rightarrow> c"
  from Cons.prems obtain c c' where "?child = JObj c"
    and w: "walk_assign c parts l v = Inr c'"
    and S': "S' = dict_set S part (JObj c')"
    by (auto split: json.splits sum.splits)
  from Cons.IH [OF w] show ?case by (simp add: S' dict_get_dict_set)
qed

lemma walk_assign_blocked:
  "leaf_at S q \<Longrightarrow> prefix q ps \<Longrightarrow> walk_assign S ps l v = Inl TypeError"
proof (induction ps arbitrary: S q)
  case Nil
  then show ?case by simp
next
  case (Cons part parts)
  from Cons.prems obtain ks where q: "q = part # ks" and ks: "prefix ks parts"
    by (cases q) auto
  show ?case
  proof (cases "dict_get S part")
    case None
    with Cons.prems(1) show ?thesis by (simp add: q)
  next
    case (Some j)
    show ?thesis
    proof (cases j)
      case (JLeaf x)
      with Some show ?thesis by simp
    next
      case (JObj c)
      with Some Cons.prems(1) have "leaf_at c ks" by (simp add: q)
      from Cons.IH [OF this ks] Some JObj show ?thesis by simp
    qed
  qed
qed

lemma walk_assign_keeps_leaf:
  "walk_assign S ps l v = Inr S' \<Longrightarrow> leaf_at S q \<Longrightarrow> leaf_at S' q \<or> prefix (ps @ [l]) q"
proof (induction ps arbitrary: S S' q)
  case Nil
  then obtain k ks where q: "q = k # ks" by (cases q) auto
  from Nil.prems(1) have S': "S' = dict_set S l (JLeaf (SStr v))" by simp
  show ?case
  proof (cases "k = l")
    case True
    then show ?thesis by (simp add: q)
  next
    case False
    with Nil.prems(2) show ?thesis by (simp add: q S' dict_get_dict_set)
  qed
next
  case (Cons part parts)
  then obtain k ks where q: "q = k # ks" by (cases q) auto
  let ?child = "case dict_get S part of None \<Rightarrow> JObj [] | Some c \<Rightarrow> c"
  from Cons.prems(1) obtain c c' where c: "?child = JObj c"
    and w: "walk_assign c parts l v = Inr c'"
    and S': "S' = dict_set S part (JObj c')"
    by (auto split: json.splits sum.splits)
  show ?case
  proof (cases "k = part")
    case False
    with Cons.prems(2) show ?thesis by (simp add: q S' dict_get_dict_set)
  next
    case True
    from Cons.prems(2) True obtain j where j: "dict_get S part = Some j"
      by (cases "dict_get S part") (auto simp: q)
    with c have jc: "dict_get S part = Some (JObj c)" by simp
    with Cons.prems(2) True have "leaf_at c ks" by (simp add: q)
    from Cons.IH [OF w this] have "leaf_at c' ks \<or> prefix (parts @ [l]) ks" .
    with True show ?thesis by (auto simp: q S' dict_get_dict_set)
  qed
qed

lemma unflatten_loop_blocked:
  "(k', w) \<in> set flat \<Longrightarrow> w \<noteq> [] \<Longrightarrow> leaf_at S q \<Longrightarrow> strict_prefix q (split_key k') \<Longrightarrow>
     unflatten_loop flat S = Inl TypeError"
proof (induction flat arbitrary: S q)
  case Nil
  then show ?case by simp
next
  case (Cons x rest)
  obtain key v where x: "x = (key, v)" by (cases x)
  let ?parts = "split_key key"
  have parts: "butlast ?parts @ [last ?parts] = ?parts"
    using split_key_nonempty by simp
  show ?case
  proof (cases "v = []")
    case True
    with Cons.prems have "(k', w) \<in> set rest" by (auto simp: x)
    from Cons.IH [OF this Cons.prems(2,3,4)] True show ?thesis by (simp add: x)
  next
    case False
    show ?thesis
    proof (cases "walk_assign S (butlast ?parts) (last ?parts) v")
      case (Inl e)
      then have "e = TypeError" by (rule walk_assign_error)
      with Inl False show ?thesis by (simp add: x Let_def)
    next
      case (Inr S')
      have not_head: "(k', w) \<noteq> (key, v)"
      proof
        assume "(k', w) = (key, v)"
        with Cons.prems(4) have "strict_prefix q (butlast ?parts @ [last ?parts])"
          by (simp only: parts prod.inject)
        then have "prefix q (butlast ?parts)" by (simp only: prefix_snoc strict_prefix_def) auto
        with Cons.prems(3) have "walk_assign S (butlast ?parts) (last ?parts) v = Inl TypeError"
          by (rule walk_assign_blocked)
        with Inr show False by simp
      qed
      with Cons.prems(1) have r: "(k', w) \<in> set rest" by (auto simp: x)
      from walk_assign_keeps_leaf [OF Inr Cons.prems(3)]
      have "leaf_at S' q \<or> prefix ?parts q" by (simp only: parts)
      then have "unflatten_loop rest S' = Inl TypeError"
      proof
        assume "leaf_at S' q"
        with r Cons.prems(2) show ?thesis using Cons.prems(4) by (intro Cons.IH [of S' q])
      next
        assume p: "prefix ?parts q"
        from walk_assign_sets_leaf [OF Inr] have l: "leaf_at S' ?parts" by (simp only: parts)
        from p Cons.prems(4) have "strict_prefix ?parts (split_key k')"
          by (auto simp: strict_prefix_def)
        with r Cons.prems(2) l show ?thesis by (intro Cons.IH [of S' ?parts])
      qed
      with Inr False show ?thesis by (simp add: x Let_def)
    qed
  qed
qed

text \<open>
  A key with a non-empty value followed, anywhere later in the mapping, by a key with a
  non-empty value whose segments extend its segments: \<open>unflatten_dict\<close> raises
  \<^verbatim>\<open>TypeError\<close>, whatever lies between and after them.
\<close>

lemma unflatten_leaf_then_longer_key_always_raises:
  assumes "v \<noteq> []" and "w \<noteq> []" and "dot_prefix k k'" and "(k', w) \<in> set rest"
  shows "unflatten_dict ((k, v) # rest) = Inl TypeError"
proof -
  let ?parts = "split_key k"
  have parts: "butlast ?parts @ [last ?parts] = ?parts"
    using split_key_nonempty by simp
  have "\<And>q. prefix q (butlast ?parts) \<Longrightarrow> \<not> leaf_at [] q" by (rule leaf_at_empty)
  then obtain S where S: "walk_assign [] (butlast ?parts) (last ?parts) v = Inr S"
    using walk_assign_succeeds by blast
  from walk_assign_sets_leaf [OF S] have "leaf_at S ?parts" by (simp only: parts)
  moreover from assms(3) have "strict_prefix ?parts (split_key k')" by (simp only: dot_prefix_def)
  ultimately have "unflatten_loop rest S = Inl TypeError"
    using assms(4,2) by (intro unflatten_loop_blocked [of k' w rest S ?parts])
  with S assms(1) show ?thesis by (simp add: unflatten_dict_def Let_def)
qed

text \<open>
  In the other order the longer key builds a mapping, the shorter key then replaces it by
  its leaf, and nothing is raised.
\<close>

lemma unflatten_longer_key_then_leaf_succeeds:
  assumes "v \<noteq> []" and "w \<noteq> []" and "dot_prefix k k'"
  shows "\<exists>d. unflatten_dict [(k', w), (k, v)] = Inr d \<and> leaf_at d (split_key k)"
proof -
  let ?parts = "split_key k" and ?long = "split_key k'"
  have parts: "butlast ?parts @ [last ?parts] = ?parts"
    using split_key_nonempty by simp
  have long: "butlast ?long @ [last ?long] = ?long"
    using split_key_nonempty by simp
  have "\<And>q. prefix q (butlast ?long) \<Longrightarrow> \<not> leaf_at [] q" by (rule leaf_at_empty)
  then obtain S where S: "walk_assign [] (butlast ?long) (last ?long) w = Inr S"
    using walk_assign_succeeds by blast
  have "\<not> leaf_at S q" if "prefix q (butlast ?parts)" for q
  proof
    assume "leaf_at S q"
    from walk_assign_leaf_at [OF S this] leaf_at_empty have "q = ?long" by (simp add: long)
    with that have "prefix ?long (butlast ?parts)" by simp
    then have "prefix ?long ?parts" by (metis parts prefix_prefix)
    with assms(3) show False by (auto simp: dot_prefix_def strict_prefix_def)
  qed
  then obtain d where d: "walk_assign S (butlast ?parts) (last ?parts) v = Inr d"
    using walk_assign_succeeds by blast
  from walk_assign_sets_leaf [OF d] have "leaf_at d ?parts" by (simp only: parts)
  with S d assms(1,2) show ?thesis by (simp add: unflatten_dict_def Let_def)
qed

section \<open>Round-trip documents have string leaves and prefix-free keys\<close>

lemma round_trip_doc_string_leaves: "round_trip_doc d \<Longrightarrow> string_leaves d"
  unfolding string_leaves_def
  by (induction d rule: round_trip_doc.induct) (auto simp: leaf_ok_def split: scalar.splits)

lemma seg_entries_prefix_free:
  "round_trip_doc d \<Longrightarrow> (p, t) \<in> set (seg_entries d) \<Longrightarrow> (p', t') \<in> set (seg_entries d) \<Longrightarrow>
     \<not> strict_prefix p p'"
proof (induction d arbitrary: p t p' t' rule: round_trip_doc.induct)
  case 1
  then show ?case by simp
next
  case (2 k v d)
  show ?case
  proof (cases "(p', t') \<in> set (seg_entries d)")
    case True
    note p' = seg_entries_hd [OF True]
    show ?thesis
    proof (cases "(p, t) \<in> set (seg_entries d)")
      case True
      with "2.prems"(1) \<open>(p', t') \<in> set (seg_entries d)\<close> show ?thesis
        using "2.IH" by simp
    next
      case False
      with "2.prems"(2) have "p = [k]" by simp
      moreover from p' "2.prems"(1) have "hd p' \<noteq> k" by auto
      ultimately show ?thesis using p' by (cases p') (auto simp: strict_prefix_def)
    qed
  next
    case False
    with "2.prems"(3) have "p' = [k]" by simp
    moreover from "2.prems"(2) have "p \<noteq> []" using seg_entries_hd [of p t d] by auto
    ultimately show ?thesis by (cases p) (auto simp: strict_prefix_def)
  qed
next
  case (3 k sub d)
  let ?up = "map (\<lambda>(path, t). (k # path, t)) (seg_entries sub)"
  have up: "\<And>p t. (p, t) \<in> set ?up \<Longrightarrow> \<exists>q. p = k # q \<and> (q, t) \<in> set (seg_entries sub)"
    by auto
  have down: "\<And>p t. (p, t) \<in> set (seg_entries d) \<Longrightarrow> p \<noteq> [] \<and> hd p \<noteq> k"
    using seg_entries_hd "3.prems"(1) by fastforce
  from "3.prems"(2) have a: "(p, t) \<in> set ?up \<or> (p, t) \<in> set (seg_entries d)" by simp
  from "3.prems"(3) have b: "(p', t') \<in> set ?up \<or> (p', t') \<in> set (seg_entries d)" by simp
  from a b show ?case
  proof (elim disjE)
    assume "(p, t) \<in> set ?up" "(p', t') \<in> set ?up"
    then obtain q q' where q: "p = k # q" "(q, t) \<in> set (seg_entries sub)"
      and q': "p' = k # q'" "(q', t') \<in> set (seg_entries sub)"
      using up by blast
    from "3.prems"(1) q(2) q'(2) have "\<not> strict_prefix q q'" using "3.IH"(1) by simp
    then show ?thesis by (simp add: q q')
  next
    assume "(p, t) \<in> set ?up" "(p', t') \<in> set (seg_entries d)"
    then obtain q where "p = k # q" using up by blast
    moreover from down \<open>(p', t') \<in> set (seg_entries d)\<close> have "p' \<noteq> [] \<and> hd p' \<noteq> k" by blast
    ultimately show ?thesis by (cases p') (auto simp: strict_prefix_def)
  next
    assume "(p, t) \<in> set (seg_entries d)" "(p', t') \<in> set ?up"
    then obtain q' where "p' = k # q'" using up by blast
    moreover from down \<open>(p, t) \<in> set (seg_entries d)\<close> have "p \<noteq> [] \<and> hd p \<noteq> k" by blast
    ultimately show ?thesis by (cases p) (auto simp: strict_prefix_def)
  next
    assume "(p, t) \<in> set (seg_entries d)" "(p', t') \<in> set (seg_entries d)"
    with "3.prems"(1) show ?thesis using "3.IH"(2) by simp
  qed
qed

lemma flatten_dict_seg_entries:
  assumes "round_trip_doc doc" and "(k, v) \<in> set (flatten_dict doc [])"
  shows "\<exists>p. k = join_key [] p \<and> (p, v) \<in> set (seg_entries doc)"
proof -
  have "set (flatten_dict doc []) \<subseteq> set (flatten_items doc [])"
    unfolding flatten_dict_def by (rule set_dict_of)
  with assms(2) have "(k, v) \<in> set (flatten_items doc [])" by (rule rev_subsetD)
  also have "flatten_items doc [] = map (\<lambda>(path, t). (join_key [] path, t)) (seg_entries doc)"
    using assms(1) by (rule flatten_items_seg_entries)
  finally show ?thesis by auto
qed

text \<open>
  The documents of the round-trip theorem meet the hypothesis on keys of the claim as
  written.
\<close>

lemma round_trip_doc_conflict_free:
  assumes "round_trip_doc doc"
  shows "conflict_free (flatten_dict doc [])"
  unfolding conflict_free_def
proof (intro ballI, clarify)
  fix k v k' v'
  assume "(k, v) \<in> set (flatten_dict doc [])" "(k', v') \<in> set (flatten_dict doc [])"
    and dp: "dot_prefix k k'"
  then obtain p p' where p: "k = join_key [] p" "(p, v) \<in> set (seg_entries doc)"
    and p': "k' = join_key [] p'" "(p', v') \<in> set (seg_entries doc)"
    using flatten_dict_seg_entries [OF assms] by blast
  from seg_entries_paths_ok [OF assms p(2)] have "split_key k = p"
    by (simp add: p(1) split_key_join_key)
  moreover from seg_entries_paths_ok [OF assms p'(2)] have "split_key k' = p'"
    by (simp add: p'(1) split_key_join_key)
  ultimately have "strict_prefix p p'" using dp by (simp add: dot_prefix_def)
  with seg_entries_prefix_free [OF assms p(2) p'(2)] show False by simp
qed

section \<open>The values that \<open>unflatten_dict\<close> stores\<close>

lemma join_dots_cons: "join_dots ((c # p) # ps) = c # join_dots (p # ps)"
  by (cases ps) simp_all

lemma join_dots_split_key: "join_dots (split_key k) = k"
proof (induction k)
  case Nil
  show ?case by simp
next
  case (Cons c cs)
  obtain p ps where s: "split_key cs = p # ps"
    using split_key_nonempty [of cs] by (cases "split_key cs") auto
  show ?case
  proof (cases "c = dot")
    case True
    with Cons s show ?thesis by simp
  next
    case False
    then have "split_key (c # cs) = (c # p) # ps" by (simp add: s)
    then have "join_dots (split_key (c # cs)) = c # join_dots (p # ps)"
      by (simp only: join_dots_cons)
    with Cons s show ?thesis by simp
  qed
qed

lemma split_key_inj: "split_key k = split_key k' \<Longrightarrow> k = k'"
proof -
  assume "split_key k = split_key k'"
  then have "join_dots (split_key k) = join_dots (split_key k')" by simp
  then show ?thesis by (simp only: join_dots_split_key)
qed

lemma split_key_empty_segment:
  "split_key (a @ ''..'' @ b) = split_key a @ [] # split_key b"
proof -
  have "split_key (a @ dot # (dot # b)) = split_key a @ split_key (dot # b)"
    by (rule split_key_append_dot)
  then show ?thesis by simp
qed

lemma split_key_trailing_dot: "split_key (a @ ''.'') = split_key a @ [[]]"
proof -
  have "split_key (a @ dot # []) = split_key a @ split_key []"
    by (rule split_key_append_dot)
  then show ?thesis by simp
qed

lemma value_at_Cons:
  "ks \<noteq> [] \<Longrightarrow>
     value_at d (k # ks) = (case dict_get d k of Some (JObj sub) \<Rightarrow> value_at sub ks | _ \<Rightarrow> None)"
proof (cases ks)
  case Nil
  assume "ks \<noteq> []"
  with Nil show ?thesis by simp
next
  case (Cons k' ks')
  show ?thesis unfolding Cons by simp
qed

lemma value_at_leaf_at: "value_at d q = Some (JLeaf x) \<Longrightarrow> leaf_at d q"
proof (induction d q rule: value_at.induct)
  case (1 d)
  then show ?case by simp
next
  case (2 d k)
  then show ?case by simp
next
  case (3 d k k' ks)
  from "3.prems" obtain sub where s: "dict_get d k = Some (JObj sub)"
    and v: "value_at sub (k' # ks) = Some (JLeaf x)"
    by (auto split: option.splits json.splits)
  from "3.IH" [OF s refl v] have "leaf_at sub (k' # ks)" .
  with s show ?case by simp
qed

lemma walk_assign_sets_value:
  "walk_assign S ps l v = Inr S' \<Longrightarrow> value_at S' (ps @ [l]) = Some (JLeaf (SStr v))"
proof (induction ps arbitrary: S S')
  case Nil
  then show ?case by (auto simp: dict_get_dict_set)
next
  case (Cons part parts)
  let ?child = "case dict_get S part of None \<Rightarrow> JObj [] | Some c \<Rightarrow> c"
  from Cons.prems obtain c c' where "?child = JObj c"
    and w: "walk_assign c parts l v = Inr c'"
    and S': "S' = dict_set S part (JObj c')"
    by (auto split: json.splits sum.splits)
  have "value_at S' (part # (parts @ [l])) = value_at c' (parts @ [l])"
    by (simp add: value_at_Cons S' dict_get_dict_set)
  with Cons.IH [OF w] show ?case by simp
qed

lemma walk_assign_keeps_value:
  "walk_assign S ps l v = Inr S' \<Longrightarrow> value_at S q = Some (JLeaf x) \<Longrightarrow>
     \<not> prefix (ps @ [l]) q \<Longrightarrow> value_at S' q = Some (JLeaf x)"
proof (induction ps arbitrary: S S' q)
  case Nil
  then obtain k ks where q: "q = k # ks" by (cases q) auto
  from Nil.prems(1) have S': "S' = dict_set S l (JLeaf (SStr v))" by simp
  from Nil.prems(3) have "k \<noteq> l" by (simp add: q)
  with Nil.prems(2) show ?case by (cases ks) (simp_all add: q S' dict_get_dict_set)
next
  case (Cons part parts)
  then obtain k ks where q: "q = k # ks" by (cases q) auto
  let ?child = "case dict_get S part of None \<Rightarrow> JObj [] | Some c \<Rightarrow> c"
  from Cons.prems(1) obtain c c' where c: "?child = JObj c"
    and w: "walk_assign c parts l v = Inr c'"
    and S': "S' = dict_set S part (JObj c')"
    by (auto split: json.splits sum.splits)
  show ?case
  proof (cases "k = part")
    case False
    with Cons.prems(2) show ?thesis by (cases ks) (simp_all add: q S' dict_get_dict_set)
  next
    case True
    show ?thesis
    proof (cases "ks = []")
      case e: True
      with Cons.prems(2) True have "dict_get S part = Some (JLeaf x)" by (simp add: q)
      with c show ?thesis by simp
    next
      case ne: False
      with Cons.prems(2) True obtain sub where s: "dict_get S part = Some (JObj sub)"
        and vs: "value_at sub ks = Some (JLeaf x)"
        by (auto simp: q value_at_Cons split: option.splits json.splits)
      from s c have "sub = c" by simp
      with vs have vc: "value_at c ks = Some (JLeaf x)" by simp
      from Cons.prems(3) True have "\<not> prefix (parts @ [l]) ks" by (simp add: q)
      with Cons.IH [OF w vc] have "value_at c' ks = Some (JLeaf x)" by simp
      with ne True show ?thesis by (simp add: q S' value_at_Cons dict_get_dict_set)
    qed
  qed
qed

lemma unflatten_loop_keeps_value:
  "unflatten_loop flat S = Inr d \<Longrightarrow> value_at S q = Some (JLeaf x) \<Longrightarrow>
   (\<And>k v. (k, v) \<in> set flat \<Longrightarrow> v \<noteq> [] \<Longrightarrow> \<not> prefix (split_key k) q) \<Longrightarrow>
     value_at d q = Some (JLeaf x)"
proof (induction flat arbitrary: S)
  case Nil
  then show ?case by simp
next
  case (Cons e rest)
  obtain key w where e: "e = (key, w)" by (cases e)
  have rest: "\<not> prefix (split_key k) q" if "(k, v) \<in> set rest" and "v \<noteq> []" for k v
    using Cons.prems(3) [of k v] that by simp
  show ?case
  proof (cases "w = []")
    case True
    with Cons.prems(1) have "unflatten_loop rest S = Inr d" by (simp add: e)
    from Cons.IH [OF this Cons.prems(2) rest] show ?thesis .
  next
    case False
    let ?parts = "split_key key"
    have parts: "butlast ?parts @ [last ?parts] = ?parts"
      using split_key_nonempty by simp
    from Cons.prems(1) False obtain S' where
      w: "walk_assign S (butlast ?parts) (last ?parts) w = Inr S'"
      and r: "unflatten_loop rest S' = Inr d"
      by (auto simp: e Let_def split: sum.splits)
    have "\<not> prefix ?parts q" using Cons.prems(3) [of key w] False by (simp add: e)
    then have "\<not> prefix (butlast ?parts @ [last ?parts]) q" unfolding parts .
    with walk_assign_keeps_value [OF w Cons.prems(2)]
    have "value_at S' q = Some (JLeaf x)" by simp
    from Cons.IH [OF r this rest] show ?thesis .
  qed
qed

lemma unflatten_loop_values:
  "unflatten_loop flat S = Inr d \<Longrightarrow> conflict_free flat \<Longrightarrow> distinct (map fst flat) \<Longrightarrow>
   (k, v) \<in> set flat \<Longrightarrow> v \<noteq> [] \<Longrightarrow>
     value_at d (split_key k) = Some (JLeaf (SStr v))"
proof (induction flat arbitrary: S)
  case Nil
  then show ?case by simp
next
  case (Cons e rest)
  obtain key w where e: "e = (key, w)" by (cases e)
  from Cons.prems(2) have cf: "conflict_free rest" by (auto simp: conflict_free_def)
  from Cons.prems(3) have dr: "distinct (map fst rest)" and fresh: "key \<notin> fst ` set rest"
    by (simp_all add: e)
  show ?case
  proof (cases "w = []")
    case True
    with Cons.prems(1) have r: "unflatten_loop rest S = Inr d" by (simp add: e)
    from True Cons.prems(4,5) have "(k, v) \<in> set rest" by (auto simp: e)
    from Cons.IH [OF r cf dr this Cons.prems(5)] show ?thesis .
  next
    case False
    let ?parts = "split_key key"
    have parts: "butlast ?parts @ [last ?parts] = ?parts"
      using split_key_nonempty by simp
    from Cons.prems(1) False obtain S' where
      w: "walk_assign S (butlast ?parts) (last ?parts) w = Inr S'"
      and r: "unflatten_loop rest S' = Inr d"
      by (auto simp: e Let_def split: sum.splits)
    show ?thesis
    proof (cases "(k, v) = (key, w)")
      case True
      from walk_assign_sets_value [OF w]
      have here: "value_at S' ?parts = Some (JLeaf (SStr w))" by (simp only: parts)
      have later: "\<not> prefix (split_key k') ?parts"
        if "(k', v') \<in> set rest" and "v' \<noteq> []" for k' v'
      proof
        assume p: "prefix (split_key k') ?parts"
        from that(1) fresh have "k' \<noteq> key" by force
        then have "split_key k' \<noteq> ?parts" using split_key_inj by blast
        with p have "strict_prefix (split_key k') ?parts" by (simp add: strict_prefix_def)
        then have "dot_prefix k' key" by (simp add: dot_prefix_def)
        moreover have "\<not> dot_prefix k' key"
          using Cons.prems(2) that(1) by (auto simp: conflict_free_def e)
        ultimately show False by simp
      qed
      from unflatten_loop_keeps_value [OF r here later]
      have "value_at d ?parts = Some (JLeaf (SStr w))" .
      with True show ?thesis by simp
    next
      case False
      with Cons.prems(4) have "(k, v) \<in> set rest" by (auto simp: e)
      from Cons.IH [OF r cf dr this Cons.prems(5)] show ?thesis .
    qed
  qed
qed

lemma unflatten_loop_leaves:
  "unflatten_loop flat S = Inr d \<Longrightarrow> leaf_at d q \<Longrightarrow>
     leaf_at S q \<or> (\<exists>k v. (k, v) \<in> set flat \<and> v \<noteq> [] \<and> q = split_key k)"
proof (induction flat arbitrary: S)
  case Nil
  then show ?case by simp
next
  case (Cons e rest)
  obtain key w where e: "e = (key, w)" by (cases e)
  show ?case
  proof (cases "w = []")
    case True
    with Cons.prems(1) have r: "unflatten_loop rest S = Inr d" by (simp add: e)
    from Cons.IH [OF r Cons.prems(2)] show ?thesis by auto
  next
    case False
    let ?parts = "split_key key"
    have parts: "butlast ?parts @ [last ?parts] = ?parts"
      using split_key_nonempty by simp
    from Cons.prems(1) False obtain S' where
      w: "walk_assign S (butlast ?parts) (last ?parts) w = Inr S'"
      and r: "unflatten_loop rest S' = Inr d"
      by (auto simp: e Let_def split: sum.splits)
    from Cons.IH [OF r Cons.prems(2)]
    have "leaf_at S' q \<or> (\<exists>k v. (k, v) \<in> set rest \<and> v \<noteq> [] \<and> q = split_key k)" .
    then show ?thesis
    proof
      assume "leaf_at S' q"
      from walk_assign_leaf_at [OF w this] have "leaf_at S q \<or> q = ?parts" by (simp only: parts)
      with False show ?thesis by (auto simp: e)
    next
      assume "\<exists>k v. (k, v) \<in> set rest \<and> v \<noteq> [] \<and> q = split_key k"
      then show ?thesis by auto
    qed
  qed
qed

text \<open>
  Three keys, one with an empty segment and one that is the empty string: the nodes are
  built under the empty segment name.
\<close>

lemma unflatten_empty_segments_example:
  "unflatten_dict [(''a..b'', ''x''), (''a.c'', ''y''), ([], ''z'')]
     = Inr [(''a'', JObj [([], JObj [(''b'', JLeaf (SStr ''x''))]), (''c'', JLeaf (SStr ''y''))]),
            ([], JLeaf (SStr ''z''))]"
  by (simp add: unflatten_dict_def dict_get_def)

section \<open>The round trip of \<open>flatten_dict\<close> and \<open>unflatten_dict\<close>\<close>

text \<open>
  C1 (as amended). For every hierarchical document whose segment names are non-empty and
  contain no \<^verbatim>\<open>.\<close>, whose leaves are non-empty strings that neither start nor end with a
  double quote, and whose mappings below the root are not empty, unflattening the flattened
  document returns the document itself (with the keys in their original order, hence equal
  as Python dictionaries). Such a document has string leaves only and no key of its
  flattened set is a prefix of another (lemmas \<open>round_trip_doc_string_leaves\<close> and
  \<open>round_trip_doc_conflict_free\<close>).
\<close>

theorem flatten_unflatten_round_trip:
  assumes "round_trip_doc doc"
  shows "unflatten_dict (flatten_dict doc []) = Inr doc"
proof -
  let ?flat = "map (\<lambda>(path, t). (join_key [] path, t)) (seg_entries doc)"
  have items: "flatten_items doc [] = ?flat"
    using assms by (rule flatten_items_seg_entries)
  have "inj_on (join_key []) (set (map fst (seg_entries doc)))"
  proof (rule inj_onI)
    fix x y
    assume "x \<in> set (map fst (seg_entries doc))" "y \<in> set (map fst (seg_entries doc))"
      and e: "join_key [] x = join_key [] y"
    then obtain t t' where "(x, t) \<in> set (seg_entries doc)" "(y, t') \<in> set (seg_entries doc)"
      by auto
    with assms have "list_all segment_ok x" "list_all segment_ok y"
      using seg_entries_paths_ok [of doc] by auto
    then show "x = y" using e by (rule join_key_inj)
  qed
  moreover have "distinct (map fst (seg_entries doc))"
    using assms by (rule seg_entries_distinct)
  ultimately have d: "distinct (map (join_key []) (map fst (seg_entries doc)))"
    by (simp only: distinct_map)
  have e: "map fst ?flat = map (join_key []) (map fst (seg_entries doc))"
    by (simp add: case_prod_unfold comp_def)
  from d have "distinct (map fst ?flat)" by (simp only: e)
  then have "dict_of ?flat = ?flat" by (rule dict_of_distinct)
  then have "flatten_dict doc [] = ?flat" by (simp add: flatten_dict_def items)
  moreover have "unflatten_loop ?flat [] = put_all (seg_entries doc) []"
    using assms seg_entries_paths_ok [of doc] by (intro unflatten_loop_put_all) blast
  moreover have "put_all (seg_entries doc) [] = Inr ([] @ doc)"
    using assms by (intro put_all_rebuilds) simp_all
  ultimately show ?thesis by (simp add: unflatten_dict_def)
qed

text \<open>
  A document with two levels of nesting.
\<close>

theorem flatten_unflatten_round_trip_witness:
  "round_trip_doc
     [(''common'', JObj [(''title'', JLeaf (SStr ''Hi'')),
                         (''i18n'', JObj [(''ok'', JLeaf (SStr ''Yes''))])]),
      (''bye'', JLeaf (SStr ''Ciao''))]
   \<and> unflatten_dict (flatten_dict
         [(''common'', JObj [(''title'', JLeaf (SStr ''Hi'')),
                             (''i18n'', JObj [(''ok'', JLeaf (SStr ''Yes''))])]),
          (''bye'', JLeaf (SStr ''Ciao''))] [])
       = Inr [(''common'', JObj [(''title'', JLeaf (SStr ''Hi'')),
                                 (''i18n'', JObj [(''ok'', JLeaf (SStr ''Yes''))])]),
              (''bye'', JLeaf (SStr ''Ciao''))]"
proof (rule conjI)
  show h: "round_trip_doc
     [(''common'', JObj [(''title'', JLeaf (SStr ''Hi'')),
                         (''i18n'', JObj [(''ok'', JLeaf (SStr ''Yes''))])]),
      (''bye'', JLeaf (SStr ''Ciao''))]"
    by (simp add: segment_ok_def leaf_ok_def)
  show "unflatten_dict (flatten_dict
         [(''common'', JObj [(''title'', JLeaf (SStr ''Hi'')),
                             (''i18n'', JObj [(''ok'', JLeaf (SStr ''Yes''))])]),
          (''bye'', JLeaf (SStr ''Ciao''))] [])
       = Inr [(''common'', JObj [(''title'', JLeaf (SStr ''Hi'')),
                                 (''i18n'', JObj [(''ok'', JLeaf (SStr ''Yes''))])]),
              (''bye'', JLeaf (SStr ''Ciao''))]"
    by (rule flatten_unflatten_round_trip [OF h])
qed

text \<open>
  The claim as written asks only for string leaves and prefix-free keys. The document
  \<^verbatim>\<open>{"a": ""}\<close> has both, and its round trip is not the document: the empty value is skipped
  by \<open>unflatten_dict\<close>.
\<close>

theorem round_trip_counterexample:
  "string_leaves [(''a'', JLeaf (SStr []))]
   \<and> conflict_free (flatten_dict [(''a'', JLeaf (SStr []))] [])
   \<and> unflatten_dict (flatten_dict [(''a'', JLeaf (SStr []))] [])
       \<noteq> Inr [(''a'', JLeaf (SStr []))]"
  by (simp add: string_leaves_def conflict_free_def dot_prefix_def flatten_dict_def dict_of_def
      new_key_def strip_quotes_def unflatten_dict_def)

section \<open>What \<open>flatten_dict\<close> stores for a leaf\<close>

text \<open>
  C2 (as amended). Every entry of the flattened set comes from a leaf at that path, and its
  value is the leaf's string form with all leading and all trailing double quotes removed:
  the string form is the value between some number of quotes on each side, and a non-empty
  value neither starts nor ends with a quote. The strip is not limited to one pair.
\<close>

theorem flatten_strips_all_enclosing_quotes:
  assumes "(k, t) \<in> set (flatten_dict d p)"
  shows "\<exists>v m n. (k, v) \<in> set (leaf_entries d p)
           \<and> py_str v = replicate m dquote @ t @ replicate n dquote
           \<and> (t \<noteq> [] \<longrightarrow> hd t \<noteq> dquote \<and> last t \<noteq> dquote)"
proof -
  from assms obtain v where v: "(k, v) \<in> set (leaf_entries d p)" and t: "t = strip_quotes (py_str v)"
    using flatten_dict_entry by blast
  obtain m n where "py_str v = replicate m dquote @ t @ replicate n dquote"
    using strip_quotes_decomp [of "py_str v"] t by blast
  moreover have "t \<noteq> [] \<longrightarrow> hd t \<noteq> dquote \<and> last t \<noteq> dquote"
    using strip_quotes_hd [of "py_str v"] strip_quotes_last [of "py_str v"] t by blast
  ultimately show ?thesis using v by blast
qed

theorem flatten_strips_all_enclosing_quotes_witness:
  "(''k'', ''hello'') \<in> set (flatten_dict [(''k'', JLeaf (SStr (dquote # dquote # ''hello'' @ [dquote, dquote])))] [])
   \<and> (\<exists>v m n. (''k'', v) \<in> set (leaf_entries [(''k'', JLeaf (SStr (dquote # dquote # ''hello'' @ [dquote, dquote])))] [])
           \<and> py_str v = replicate m dquote @ ''hello'' @ replicate n dquote
           \<and> (''hello'' \<noteq> [] \<longrightarrow> hd ''hello'' \<noteq> dquote \<and> last ''hello'' \<noteq> dquote))"
proof (rule conjI)
  show h: "(''k'', ''hello'') \<in> set (flatten_dict [(''k'', JLeaf (SStr (dquote # dquote # ''hello'' @ [dquote, dquote])))] [])"
    by (simp add: flatten_dict_def dict_of_def new_key_def strip_quotes_def)
  show "\<exists>v m n. (''k'', v) \<in> set (leaf_entries [(''k'', JLeaf (SStr (dquote # dquote # ''hello'' @ [dquote, dquote])))] [])
           \<and> py_str v = replicate m dquote @ ''hello'' @ replicate n dquote
           \<and> (''hello'' \<noteq> [] \<longrightarrow> hd ''hello'' \<noteq> dquote \<and> last ''hello'' \<noteq> dquote)"
    by (rule flatten_strips_all_enclosing_quotes [OF h])
qed

text \<open>
  The claim as written says one pair only. A spec-side strip of exactly one pair keeps the
  inner quotes of a doubly quoted value; the code removes both layers.
\<close>

theorem flatten_one_layer_strip_counterexample:
  "flatten_dict [(''k'', JLeaf (SStr (dquote # dquote # ''hello'' @ [dquote, dquote])))] []
     = [(''k'', ''hello'')]
   \<and> spec_strip_one_pair (dquote # dquote # ''hello'' @ [dquote, dquote])
     = dquote # ''hello'' @ [dquote]
   \<and> flatten_dict [(''k'', JLeaf (SStr (dquote # dquote # ''hello'' @ [dquote, dquote])))] []
     \<noteq> [(''k'', spec_strip_one_pair (dquote # dquote # ''hello'' @ [dquote, dquote]))]"
  by (simp add: flatten_dict_def dict_of_def new_key_def strip_quotes_def spec_strip_one_pair_def)

text \<open>The singly quoted value of the claim does flatten to the bare word.\<close>

lemma flatten_quoted_hello:
  "flatten_dict [(''k'', JLeaf (SStr (dquote # ''hello'' @ [dquote])))] [] = [(''k'', ''hello'')]"
  by (simp add: flatten_dict_def dict_of_def new_key_def strip_quotes_def)

section \<open>Prefix conflicts between keys\<close>

text \<open>
  C3. The claim: when a shorter key with a leaf value comes before a longer key whose
  segments extend it, \<open>unflatten_dict\<close> silently turns the leaf into a mapping (and the
  mapping into a leaf in the other order) and completes without error. The code does not do
  the first: the inner loop creates a mapping only for a part that is missing, and for the
  flat mapping \<^verbatim>\<open>{"a": "x", "a.b": "y"}\<close> the walk for \<^verbatim>\<open>a.b\<close> reaches the string stored
  under \<^verbatim>\<open>a\<close>, where the assignment raises \<^verbatim>\<open>TypeError\<close>. Lemma
  \<open>unflatten_leaf_then_longer_key_always_raises\<close> shows the same for every such pair of
  keys, and lemma \<open>unflatten_longer_key_then_leaf_succeeds\<close> that the other order does
  replace the mapping by the leaf.
\<close>

theorem unflatten_leaf_then_longer_key_raises:
  "unflatten_dict [(''a'', ''x''), (''a.b'', ''y'')] = Inl TypeError"
  by (simp add: unflatten_dict_def dict_get_def)

text \<open>In the other order the mapping under \<^verbatim>\<open>a\<close> is replaced by the leaf, without error.\<close>

lemma unflatten_longer_key_then_leaf_overwrites:
  "unflatten_dict [(''a.b'', ''y''), (''a'', ''x'')] = Inr [(''a'', JLeaf (SStr ''x''))]"
  by (simp add: unflatten_dict_def dict_get_def)

section \<open>Empty leaves are kept by \<open>flatten_dict\<close>\<close>

text \<open>
  C4 (as amended). \<open>flatten_dict\<close> drops nothing: the key of every leaf of the document
  is a key of the flattened set, whatever the leaf holds, and the value stored under it is
  the empty string exactly when the string form of the leaf it comes from consists of double
  quotes only (the empty string included).
\<close>

theorem flatten_keeps_every_leaf:
  assumes "(k, v) \<in> set (leaf_entries d p)"
  shows "\<exists>t v'. (k, t) \<in> set (flatten_dict d p) \<and> (k, v') \<in> set (leaf_entries d p)
           \<and> t = strip_quotes (py_str v') \<and> (t = [] \<longleftrightarrow> set (py_str v') \<subseteq> {dquote})"
proof -
  from assms have "fst (k, v) \<in> fst ` set (leaf_entries d p)" by (rule imageI)
  then have "k \<in> fst ` set (flatten_dict d p)" by (simp only: flatten_dict_keys fst_conv)
  then obtain t where t: "(k, t) \<in> set (flatten_dict d p)" by auto
  then obtain v' where "(k, v') \<in> set (leaf_entries d p)" and "t = strip_quotes (py_str v')"
    using flatten_dict_entry by blast
  then show ?thesis using t strip_quotes_empty_iff [of "py_str v'"] by blast
qed

theorem flatten_keeps_every_leaf_witness:
  "(''a'', SStr []) \<in> set (leaf_entries [(''a'', JLeaf (SStr []))] [])
   \<and> (\<exists>t v'. (''a'', t) \<in> set (flatten_dict [(''a'', JLeaf (SStr []))] [])
           \<and> (''a'', v') \<in> set (leaf_entries [(''a'', JLeaf (SStr []))] [])
           \<and> t = strip_quotes (py_str v') \<and> (t = [] \<longleftrightarrow> set (py_str v') \<subseteq> {dquote}))"
proof (rule conjI)
  show h: "(''a'', SStr []) \<in> set (leaf_entries [(''a'', JLeaf (SStr []))] [])"
    by (simp add: new_key_def)
  show "\<exists>t v'. (''a'', t) \<in> set (flatten_dict [(''a'', JLeaf (SStr []))] [])
           \<and> (''a'', v') \<in> set (leaf_entries [(''a'', JLeaf (SStr []))] [])
           \<and> t = strip_quotes (py_str v') \<and> (t = [] \<longleftrightarrow> set (py_str v') \<subseteq> {dquote})"
    by (rule flatten_keeps_every_leaf [OF h])
qed

text \<open>An empty leaf is stored as an empty string.\<close>

theorem flatten_empty_value_counterexample:
  "(''a'', []) \<in> set (flatten_dict [(''a'', JLeaf (SStr []))] [])"
  by (simp add: flatten_dict_def dict_of_def new_key_def strip_quotes_def)

section \<open>Extraction of the languages of a table\<close>




section \<open>Empty values in \<open>unflatten_dict\<close>\<close>

text \<open>
  C6. \<open>unflatten_dict\<close> skips every pair whose value is empty: the result is the result
  for the mapping without those pairs, so such a pair adds no key, and when the function
  returns a document no leaf of it is the empty string.
\<close>

theorem unflatten_skips_empty_values:
  "unflatten_dict flat = unflatten_dict (filter (\<lambda>(k, v). v \<noteq> []) flat)
   \<and> (\<forall>d. unflatten_dict flat = Inr d \<longrightarrow> SStr [] \<notin> set (leaf_values d))"
  using unflatten_loop_leaf_values [of flat "[]"]
  by (simp add: unflatten_dict_def unflatten_loop_filter)

text \<open>
  A mapping with one empty value: only the other key appears.
\<close>

theorem unflatten_skips_empty_values_witness:
  "unflatten_dict [(''a'', []), (''b'', ''x'')] = Inr [(''b'', JLeaf (SStr ''x''))]
   \<and> unflatten_dict [(''a'', []), (''b'', ''x'')]
       = unflatten_dict (filter (\<lambda>(k, v). v \<noteq> []) [(''a'', []), (''b'', ''x'')])
   \<and> SStr [] \<notin> set (leaf_values [(''b'', JLeaf (SStr ''x''))])"
proof -
  have h: "unflatten_dict [(''a'', []), (''b'', ''x'')] = Inr [(''b'', JLeaf (SStr ''x''))]"
    by (simp add: unflatten_dict_def)
  note t = unflatten_skips_empty_values [of "[(''a'', []), (''b'', ''x'')]"]
  from t have a: "unflatten_dict [(''a'', []), (''b'', ''x'')]
       = unflatten_dict (filter (\<lambda>(k, v). v \<noteq> []) [(''a'', []), (''b'', ''x'')])"
    by (rule conjunct1)
  from t have "\<forall>d. unflatten_dict [(''a'', []), (''b'', ''x'')] = Inr d
                 \<longrightarrow> SStr [] \<notin> set (leaf_values d)"
    by (rule conjunct2)
  with h have b: "SStr [] \<notin> set (leaf_values [(''b'', JLeaf (SStr ''x''))])" by blast
  from h a b show ?thesis by (intro conjI)
qed

section \<open>Columns and rows of the table\<close>

text \<open>
  C7 (as amended). When at least one language has at least one key, \<open>create_excel\<close>
  returns a frame whose columns are exactly the input languages, each once: the priority
  language first when it is among them, followed by the other languages in ascending order;
  all languages in ascending order when the priority language is absent, without error.
  (When no language has any key the frame has no rows and no columns.)
\<close>

theorem create_excel_column_order:
  assumes "all_keys translations \<noteq> []"
  shows "\<exists>df. create_excel translations priority_lang = Inr df
           \<and> set (df_columns df) = fst ` set translations \<and> distinct (df_columns df)
           \<and> (if priority_lang \<in> fst ` set translations
              then \<exists>rest. df_columns df = priority_lang # rest \<and> sorted rest
                     \<and> set rest = fst ` set translations - {priority_lang}
              else sorted (df_columns df))"
proof -
  let ?raw = "df_columns (from_dict_index (build_df_data translations))"
  from assms have s: "set ?raw = fst ` set translations" by (simp only: columns_from_dict if_False)
  have d: "distinct ?raw" by (rule distinct_columns_from_dict)
  obtain df where df: "create_excel translations priority_lang = Inr df"
    and cols: "df_columns df = order_columns ?raw priority_lang"
    unfolding create_excel_frame by simp
  have "set (df_columns df) = fst ` set translations" by (simp only: cols set_order_columns s)
  moreover have "distinct (df_columns df)" using d by (simp only: cols distinct_order_columns)
  moreover have "if priority_lang \<in> fst ` set translations
              then \<exists>rest. df_columns df = priority_lang # rest \<and> sorted rest
                     \<and> set rest = fst ` set translations - {priority_lang}
              else sorted (df_columns df)"
    using order_columns_shape [OF d, of priority_lang] by (simp only: cols s)
  ultimately show ?thesis using df by blast
qed

text \<open>
  Languages \<^verbatim>\<open>fr-FR\<close>, \<^verbatim>\<open>en-US\<close>, \<^verbatim>\<open>de-DE\<close> with priority \<^verbatim>\<open>en-US\<close>.
\<close>

theorem create_excel_column_order_witness:
  "all_keys [(''fr-FR'', [(''a.c'', ''c'')]), (''en-US'', [(''a.b'', ''b''), (''z'', ''end'')]), (''de-DE'', [])] \<noteq> []
   \<and> (\<exists>df. create_excel [(''fr-FR'', [(''a.c'', ''c'')]), (''en-US'', [(''a.b'', ''b''), (''z'', ''end'')]), (''de-DE'', [])] ''en-US'' = Inr df
           \<and> set (df_columns df) = fst ` set [(''fr-FR'', [(''a.c'', ''c'')]), (''en-US'', [(''a.b'', ''b''), (''z'', ''end'')]), (''de-DE'', [])]
           \<and> distinct (df_columns df)
           \<and> (if ''en-US'' \<in> fst ` set [(''fr-FR'', [(''a.c'', ''c'')]), (''en-US'', [(''a.b'', ''b''), (''z'', ''end'')]), (''de-DE'', [])]
              then \<exists>rest. df_columns df = ''en-US'' # rest \<and> sorted rest
                     \<and> set rest = fst ` set [(''fr-FR'', [(''a.c'', ''c'')]), (''en-US'', [(''a.b'', ''b''), (''z'', ''end'')]), (''de-DE'', [])] - {''en-US''}
              else sorted (df_columns df)))"
proof (rule conjI)
  show h: "all_keys [(''fr-FR'', [(''a.c'', ''c'')]), (''en-US'', [(''a.b'', ''b''), (''z'', ''end'')]), (''de-DE'', [])] \<noteq> []"
    by (simp add: all_keys_def)
  show "\<exists>df. create_excel [(''fr-FR'', [(''a.c'', ''c'')]), (''en-US'', [(''a.b'', ''b''), (''z'', ''end'')]), (''de-DE'', [])] ''en-US'' = Inr df
           \<and> set (df_columns df) = fst ` set [(''fr-FR'', [(''a.c'', ''c'')]), (''en-US'', [(''a.b'', ''b''), (''z'', ''end'')]), (''de-DE'', [])]
           \<and> distinct (df_columns df)
           \<and> (if ''en-US'' \<in> fst ` set [(''fr-FR'', [(''a.c'', ''c'')]), (''en-US'', [(''a.b'', ''b''), (''z'', ''end'')]), (''de-DE'', [])]
              then \<exists>rest. df_columns df = ''en-US'' # rest \<and> sorted rest
                     \<and> set rest = fst ` set [(''fr-FR'', [(''a.c'', ''c'')]), (''en-US'', [(''a.b'', ''b''), (''z'', ''end'')]), (''de-DE'', [])] - {''en-US''}
              else sorted (df_columns df))"
    by (rule create_excel_column_order [OF h])
qed

text \<open>
  The claim as written holds for every input. With the three languages of its example and
  no key in any of them, \<^verbatim>\<open>df_data\<close> is empty, \<^verbatim>\<open>DataFrame.from_dict\<close> gives a frame without
  columns, and the table has no column at all.
\<close>

theorem create_excel_no_keys_counterexample:
  "create_excel [(''fr-FR'', []), (''en-US'', []), (''de-DE'', [])] ''en-US''
     = Inr \<lparr>df_columns = [], df_rows = []\<rparr>"
  by (simp add: create_excel_def select_columns_def from_dict_index_def build_df_data_def
      all_keys_def order_columns_def first_seen_def Let_def)

text \<open>
  C8. \<open>create_excel\<close> returns a frame (it never fails) with one row per key of the
  union of all languages' keys, the rows in ascending order of the key, and for every key
  and every language the cell is the language's value for the key when it has one and the
  empty string otherwise. The languages are the keys of a dictionary, hence distinct.
\<close>

theorem create_excel_rows:
  assumes "distinct (map fst translations)"
  shows "\<exists>df. create_excel translations priority_lang = Inr df
           \<and> sorted (df_index df) \<and> distinct (df_index df)
           \<and> set (df_index df) = key_union translations
           \<and> (\<forall>key \<in> key_union translations. \<forall>(lang_code, lang_dict) \<in> set translations.
                 df_cell df key lang_code = Some (SStr (cell_value lang_dict key)))"
proof -
  obtain df where df: "create_excel translations priority_lang = Inr df"
    unfolding create_excel_frame by simp
  then have "df_index df = sort (all_keys translations)"
    unfolding create_excel_frame
    by (auto simp: df_index_def from_dict_index_def Let_def comp_def case_prod_unfold
        index_build_df_data)
  then have "sorted (df_index df)" "distinct (df_index df)"
    "set (df_index df) = key_union translations"
    by (simp_all add: distinct_all_keys set_all_keys)
  moreover have "df_cell df key lang_code = Some (SStr (cell_value lang_dict key))"
    if "key \<in> key_union translations" "(lang_code, lang_dict) \<in> set translations"
    for key lang_code lang_dict
  proof -
    from that(1) have k: "key \<in> set (all_keys translations)" by (simp only: set_all_keys)
    from that(2) have "fst (lang_code, lang_dict) \<in> fst ` set translations" by (rule imageI)
    then have c: "lang_code \<in> fst ` set translations" by simp
    show ?thesis
      by (simp add: df_cell_create_excel [OF df k c] row_lookup [OF assms that(2)])
  qed
  ultimately show ?thesis using df by blast
qed

text \<open>
  \<^verbatim>\<open>fr-FR\<close> with the key \<^verbatim>\<open>a.c\<close> and \<^verbatim>\<open>en-US\<close> with the keys \<^verbatim>\<open>a.b\<close> and \<^verbatim>\<open>z\<close>.
\<close>

theorem create_excel_rows_witness:
  "distinct (map fst [(''fr-FR'', [(''a.c'', ''c'')]), (''en-US'', [(''a.b'', ''b''), (''z'', ''end'')])])
   \<and> (\<exists>df. create_excel [(''fr-FR'', [(''a.c'', ''c'')]), (''en-US'', [(''a.b'', ''b''), (''z'', ''end'')])] ''en-US'' = Inr df
           \<and> sorted (df_index df) \<and> distinct (df_index df)
           \<and> set (df_index df) = key_union [(''fr-FR'', [(''a.c'', ''c'')]), (''en-US'', [(''a.b'', ''b''), (''z'', ''end'')])]
           \<and> (\<forall>key \<in> key_union [(''fr-FR'', [(''a.c'', ''c'')]), (''en-US'', [(''a.b'', ''b''), (''z'', ''end'')])].
                \<forall>(lang_code, lang_dict) \<in> set [(''fr-FR'', [(''a.c'', ''c'')]), (''en-US'', [(''a.b'', ''b''), (''z'', ''end'')])].
                 df_cell df key lang_code = Some (SStr (cell_value lang_dict key))))"
proof (rule conjI)
  show h: "distinct (map fst [(''fr-FR'', [(''a.c'', ''c'')]), (''en-US'', [(''a.b'', ''b''), (''z'', ''end'')])])"
    by simp
  show "\<exists>df. create_excel [(''fr-FR'', [(''a.c'', ''c'')]), (''en-US'', [(''a.b'', ''b''), (''z'', ''end'')])] ''en-US'' = Inr df
           \<and> sorted (df_index df) \<and> distinct (df_index df)
           \<and> set (df_index df) = key_union [(''fr-FR'', [(''a.c'', ''c'')]), (''en-US'', [(''a.b'', ''b''), (''z'', ''end'')])]
           \<and> (\<forall>key \<in> key_union [(''fr-FR'', [(''a.c'', ''c'')]), (''en-US'', [(''a.b'', ''b''), (''z'', ''end'')])].
                \<forall>(lang_code, lang_dict) \<in> set [(''fr-FR'', [(''a.c'', ''c'')]), (''en-US'', [(''a.b'', ''b''), (''z'', ''end'')])].
                 df_cell df key lang_code = Some (SStr (cell_value lang_dict key)))"
    by (rule create_excel_rows [OF h])
qed

section \<open>Skipping invalid language codes\<close>




section \<open>Prefix-free keys in \<open>unflatten_dict\<close>\<close>

text \<open>
  C10. For a flat mapping in which no key is a proper \<^verbatim>\<open>.\<close>-prefix of another key,
  \<open>unflatten_dict\<close> returns a nested mapping and raises nothing (this holds whatever the
  values are: empty ones are skipped). The mapping that is returned holds, for every key
  with a non-empty value, the value as a leaf at the end of the key's segments, and it has
  no other leaf. Keys are not validated, and the segments are those of \<^verbatim>\<open>key.split('.')\<close>
  whatever the key is: the empty key has the one segment \<^verbatim>\<open>''\<close>, and a key with \<^verbatim>\<open>..\<close>, or
  with \<^verbatim>\<open>.\<close> at its start or at its end, has an empty segment at that place, so that such
  keys give nodes whose segment name is the empty string.
\<close>

theorem unflatten_conflict_free_succeeds:
  "(conflict_free flat \<longrightarrow>
      (\<exists>d. unflatten_dict flat = Inr d
         \<and> (distinct (map fst flat) \<longrightarrow>
              (\<forall>k v. (k, v) \<in> set flat \<and> v \<noteq> [] \<longrightarrow>
                     value_at d (split_key k) = Some (JLeaf (SStr v))))
         \<and> (\<forall>q. leaf_at d q \<longrightarrow> (\<exists>k v. (k, v) \<in> set flat \<and> v \<noteq> [] \<and> q = split_key k))))
   \<and> split_key [] = [[]]
   \<and> split_key (a @ ''..'' @ b) = split_key a @ [] # split_key b
   \<and> split_key (''.'' @ b) = [] # split_key b
   \<and> split_key (a @ ''.'') = split_key a @ [[]]
   \<and> unflatten_dict [([], ''x'')] = Inr [([], JLeaf (SStr ''x''))]
   \<and> unflatten_dict [(''a..b'', ''x'')]
       = Inr [(''a'', JObj [([], JObj [(''b'', JLeaf (SStr ''x''))])])]"
proof (intro conjI impI)
  assume cf: "conflict_free flat"
  then have "\<exists>d. unflatten_dict flat = Inr d"
    unfolding unflatten_dict_def using leaf_at_empty by (intro unflatten_loop_succeeds) auto
  then obtain d where d: "unflatten_loop flat [] = Inr d" by (auto simp: unflatten_dict_def)
  have v: "distinct (map fst flat) \<longrightarrow>
              (\<forall>k v. (k, v) \<in> set flat \<and> v \<noteq> [] \<longrightarrow>
                     value_at d (split_key k) = Some (JLeaf (SStr v)))"
    using unflatten_loop_values [OF d cf] by blast
  have l: "\<forall>q. leaf_at d q \<longrightarrow> (\<exists>k v. (k, v) \<in> set flat \<and> v \<noteq> [] \<and> q = split_key k)"
    using unflatten_loop_leaves [OF d] leaf_at_empty by blast
  from d have "unflatten_dict flat = Inr d" by (simp add: unflatten_dict_def)
  with v l show "\<exists>d. unflatten_dict flat = Inr d
         \<and> (distinct (map fst flat) \<longrightarrow>
              (\<forall>k v. (k, v) \<in> set flat \<and> v \<noteq> [] \<longrightarrow>
                     value_at d (split_key k) = Some (JLeaf (SStr v))))
         \<and> (\<forall>q. leaf_at d q \<longrightarrow> (\<exists>k v. (k, v) \<in> set flat \<and> v \<noteq> [] \<and> q = split_key k))"
    by (intro exI conjI)
next
  show "split_key [] = [[]]" by simp
next
  show "split_key (a @ ''..'' @ b) = split_key a @ [] # split_key b"
    by (rule split_key_empty_segment)
next
  show "split_key (''.'' @ b) = [] # split_key b" by simp
next
  show "split_key (a @ ''.'') = split_key a @ [[]]"
    by (rule split_key_trailing_dot)
next
  show "unflatten_dict [([], ''x'')] = Inr [([], JLeaf (SStr ''x''))]"
    by (simp add: unflatten_dict_def)
next
  show "unflatten_dict [(''a..b'', ''x'')]
       = Inr [(''a'', JObj [([], JObj [(''b'', JLeaf (SStr ''x''))])])]"
    by (simp add: unflatten_dict_def dict_get_def)
qed

text \<open>
  Three keys, none a prefix of another; the first has an empty segment and the last is the
  empty key. Each value is found at the end of the segments of its key.
\<close>

theorem unflatten_conflict_free_succeeds_witness:
  "conflict_free [(''a..b'', ''x''), (''a.c'', ''y''), ([], ''z'')]
   \<and> distinct (map fst [(''a..b'', ''x''), (''a.c'', ''y''), ([], ''z'')])
   \<and> (\<exists>d. unflatten_dict [(''a..b'', ''x''), (''a.c'', ''y''), ([], ''z'')] = Inr d
         \<and> value_at d [''a'', [], ''b''] = Some (JLeaf (SStr ''x''))
         \<and> value_at d [''a'', ''c''] = Some (JLeaf (SStr ''y''))
         \<and> value_at d [[]] = Some (JLeaf (SStr ''z'')))"
proof -
  let ?flat = "[(''a..b'', ''x''), (''a.c'', ''y''), ([], ''z'')]"
  have h: "conflict_free ?flat" by (simp add: conflict_free_def dot_prefix_def)
  have dk: "distinct (map fst ?flat)" by simp
  from unflatten_conflict_free_succeeds [of ?flat "[]" "[]"]
  have "conflict_free ?flat \<longrightarrow>
      (\<exists>d. unflatten_dict ?flat = Inr d
         \<and> (distinct (map fst ?flat) \<longrightarrow>
              (\<forall>k v. (k, v) \<in> set ?flat \<and> v \<noteq> [] \<longrightarrow>
                     value_at d (split_key k) = Some (JLeaf (SStr v))))
         \<and> (\<forall>q. leaf_at d q \<longrightarrow> (\<exists>k v. (k, v) \<in> set ?flat \<and> v \<noteq> [] \<and> q = split_key k)))"
    by (rule conjunct1)
  with h dk obtain d where d: "unflatten_dict ?flat = Inr d"
    and v: "\<forall>k v. (k, v) \<in> set ?flat \<and> v \<noteq> [] \<longrightarrow>
                     value_at d (split_key k) = Some (JLeaf (SStr v))"
    by blast
  from v have "(''a..b'', ''x'') \<in> set ?flat \<and> ''x'' \<noteq> [] \<longrightarrow>
                 value_at d (split_key ''a..b'') = Some (JLeaf (SStr ''x''))" by blast
  then have x: "value_at d [''a'', [], ''b''] = Some (JLeaf (SStr ''x''))" by simp
  from v have "(''a.c'', ''y'') \<in> set ?flat \<and> ''y'' \<noteq> [] \<longrightarrow>
                 value_at d (split_key ''a.c'') = Some (JLeaf (SStr ''y''))" by blast
  then have y: "value_at d [''a'', ''c''] = Some (JLeaf (SStr ''y''))" by simp
  from v have "([], ''z'') \<in> set ?flat \<and> ''z'' \<noteq> [] \<longrightarrow>
                 value_at d (split_key []) = Some (JLeaf (SStr ''z''))" by blast
  then have z: "value_at d [[]] = Some (JLeaf (SStr ''z''))" by simp
  from h dk d x y z show ?thesis by (intro conjI exI)
qed

end
